theory Spec2Isabelle
  imports Complex_Main "HOL-Library.Log_Nat"
begin

section \<open>Numbers and strings of the host language\<close>

text \<open>
  The script works on JavaScript numbers, which are IEEE 754 doubles. A finite double is
  modelled by the rational it denotes. An argument that is missing (\<open>undefined\<close>) or
  is not a number (\<open>NaN\<close>) is \<open>None\<close>: both are falsy, which is all the script asks
  of them.
\<close>

type_synonym number = rat

subsection \<open>Rounding to a double\<close>

text \<open>\<open>pow2 e\<close> is \<open>2\<close> to the power \<open>e\<close>, and \<open>expo x\<close> the exponent of a number
  \<open>x\<close> other than zero: \<open>pow2 (expo x) \<le> \<bar>x\<bar> < pow2 (expo x + 1)\<close>.\<close>

definition pow2 :: "int \<Rightarrow> rat" where
  "pow2 e = (if 0 \<le> e then 2 ^ nat e else 1 / 2 ^ nat (- e))"

definition expo :: "rat \<Rightarrow> int" where
  "expo x =
     (let p = fst (quotient_of \<bar>x\<bar>); q = snd (quotient_of \<bar>x\<bar>); d = bitlen p - bitlen q
      in if pow2 d \<le> \<bar>x\<bar> then d else d - 1)"

text \<open>Rounding to the nearest integer, a tie going to the even one.\<close>

definition round_even :: "rat \<Rightarrow> int" where
  "round_even y =
     (let f = \<lfloor>y\<rfloor>; d = y - of_int f
      in if d < 1 / 2 then f else if 1 / 2 < d then f + 1 else if even f then f else f + 1)"

text \<open>The spacing of the doubles around \<open>x\<close>: 53 significant bits, and the spacing of
  the subnormal numbers below \<open>2^-1022\<close>.\<close>

definition grid :: "rat \<Rightarrow> rat" where
  "grid x = pow2 (max (expo x) (- 1022) - 52)"

text \<open>The double nearest to \<open>x\<close>, ties to even: the result of an arithmetic operation
  whose exact result is \<open>x\<close>, and the value of a numeric literal. (A result of magnitude
  \<open>2^1024\<close> or more would be \<open>Infinity\<close>, which the model does not have: times and
  layout coordinates are far below it.)\<close>

definition double_of :: "rat \<Rightarrow> number" where
  "double_of x = of_int (round_even (x / grid x)) * grid x"

definition is_double :: "rat \<Rightarrow> bool" where
  "is_double x = (double_of x = x)"

text \<open>\<open>a + b\<close> and \<open>a - b\<close> on numbers.\<close>

definition dadd :: "number \<Rightarrow> number \<Rightarrow> number" where
  "dadd a b = double_of (a + b)"

definition dsub :: "number \<Rightarrow> number \<Rightarrow> number" where
  "dsub a b = double_of (a - b)"

subsection \<open>Operations of formatTime\<close>

text \<open>\<open>x || 0\<close> on a number or a missing value: the falsy values are
  \<open>undefined\<close>, \<open>NaN\<close> and \<open>0\<close>.\<close>

definition or_zero :: "number option \<Rightarrow> number" where
  "or_zero v = (case v of None \<Rightarrow> 0 | Some x \<Rightarrow> if x = 0 then 0 else x)"

text \<open>\<open>Math.floor\<close>, and the truncation towards zero that \<open>%\<close> is defined by. The
  remainder \<open>%\<close> of two doubles is exact. The quotient \<open>s / 60\<close> is rounded, but for a
  double \<open>s\<close> below \<open>2^53\<close> the rounded and the exact quotient have the same floor, so
  \<open>formatTime\<close> takes the floor of the exact quotient.\<close>

definition Math_floor :: "number \<Rightarrow> int" where
  "Math_floor x = \<lfloor>x\<rfloor>"

definition trunc :: "number \<Rightarrow> int" where
  "trunc x = (if x < 0 then \<lceil>x\<rceil> else \<lfloor>x\<rfloor>)"

text \<open>\<open>a % b\<close>: the remainder has the sign of the dividend.\<close>

definition js_rem :: "number \<Rightarrow> number \<Rightarrow> number" where
  "js_rem a b = a - b * of_int (trunc (a / b))"

definition digit_char :: "nat \<Rightarrow> char" where
  "digit_char d = ''0123456789'' ! (d mod 10)"

text \<open>\<open>String(n)\<close> for an integer \<open>n\<close>: the decimal numeral, with a minus sign
  below zero. (JavaScript prints an integer of magnitude below \<open>2^53\<close> this way.)\<close>

fun String_nat :: "nat \<Rightarrow> string" where
  "String_nat n = (if n < 10 then [digit_char n] else String_nat (n div 10) @ [digit_char (n mod 10)])"

declare String_nat.simps [simp del]

definition String_int :: "int \<Rightarrow> string" where
  "String_int i = (if i < 0 then CHR ''-'' # String_nat (nat (- i)) else String_nat (nat i))"

text \<open>\<open>s.padStart(n, c)\<close> for a one-character pad string \<open>c\<close>.\<close>

definition padStart :: "nat \<Rightarrow> char \<Rightarrow> string \<Rightarrow> string" where
  "padStart n c s = replicate (n - length s) c @ s"

section \<open>formatTime\<close>

definition formatTime :: "number option \<Rightarrow> string" where
  "formatTime seconds =
     (let s = max 0 (or_zero seconds);
          m = Math_floor (s / 60);
          r = Math_floor (js_rem s 60)
      in padStart 2 (CHR ''0'') (String_int m) @ '':'' @ padStart 2 (CHR ''0'') (String_int r))"

section \<open>The card: data\<close>

text \<open>A cue of the caption track. Cues are objects, told apart by identity: \<open>cue_id\<close>
  stands for the object's identity, so two cues with the same time and text can differ.\<close>

record cue =
  cue_id :: nat
  startTime :: number
  cue_text :: string

text \<open>A rendered line: the \<open>div.line\<close> element with its attributes, the text of its two
  spans, whether its class list holds \<open>active\<close>, and the cue its \<open>jump\<close> closure
  captured.\<close>

record line =
  data_idx :: string
  role :: string
  tabindex :: string
  active :: bool
  time_text :: string
  line_text :: string
  line_cue :: cue

text \<open>The two fixed paragraphs the script writes through \<open>innerHTML\<close>.\<close>

datatype message = NoTrackWarning | LoadingPlaceholder

text \<open>A child of the transcript container: a paragraph, or the line element stored at
  an index of the \<open>lines\<close> array (the array and the container share the elements).\<close>

datatype node = Para message | Div nat

text \<open>What the script does to the audio element, in order.\<close>

datatype audio_call = SetCurrentTime number | Play

text \<open>The audio element. \<open>duration = None\<close> is an unknown duration (\<open>NaN\<close>).
  \<open>currentTime\<close> holds the value last assigned.\<close>

record audio =
  currentTime :: number
  duration :: "number option"
  paused :: bool
  calls :: "audio_call list"

text \<open>How a promise settles.\<close>

datatype promise = Fulfilled | Rejected

text \<open>The per-card state that the closures of \<open>setupCard\<close> share. \<open>timer\<close> is the
  interval timer: \<open>Some p\<close> while it is set with period \<open>p\<close> milliseconds, \<open>None\<close> once
  cleared. \<open>scrollTop\<close> is the container's scroll offset.
  \<open>renders\<close> counts the calls of \<open>renderFromCues\<close> and \<open>unhandled\<close> the promise
  rejections no handler caught.\<close>

record card_state =
  transcript :: "node list"
  lines :: "line list"
  cueToLine :: "cue \<rightharpoonup> nat"
  attempts :: nat
  timer :: "nat option"
  track_mode :: string
  player :: audio
  scrollTop :: number
  renders :: nat
  unhandled :: nat

text \<open>A bounding rectangle, as far as the script reads it.\<close>

record rect =
  rect_top :: number
  rect_bottom :: number

text \<open>What a cue-change handler meets in the page: the \<open>open\<close> flag of the collapsible
  wrapper and the \<open>checked\<close> flag of the auto-scroll checkbox (\<open>None\<close> when the card has
  no such element), the rectangles of the container and of each line, and the largest
  scroll offset the container can take (its scroll height less its client height).\<close>

record view =
  details_open :: "bool option"
  autoscroll_checked :: "bool option"
  parentRect :: rect
  lineRect :: "nat \<Rightarrow> rect"
  scrollMax :: number

section \<open>Rendering\<close>

definition make_line :: "cue \<Rightarrow> nat \<Rightarrow> line" where
  "make_line c idx =
     \<lparr>data_idx = String_nat idx, role = ''button'', tabindex = ''0'', active = False,
      time_text = formatTime (Some (startTime c)), line_text = cue_text c, line_cue = c\<rparr>"

text \<open>The body of the \<open>forEach\<close> callback: the new element is appended to the container,
  pushed on \<open>lines\<close> and entered in the lookup.\<close>

definition render_cue :: "card_state \<Rightarrow> nat \<times> cue \<Rightarrow> card_state" where
  "render_cue s ic =
     (let d = length (lines s) in
      s\<lparr>transcript := transcript s @ [Div d],
        lines := lines s @ [make_line (snd ic) (fst ic)],
        cueToLine := (cueToLine s)(snd ic \<mapsto> d)\<rparr>)"

text \<open>\<open>track.cues ? Array.from(track.cues) : []\<close>\<close>

definition cues_of :: "cue list option \<Rightarrow> cue list" where
  "cues_of track_cues = (case track_cues of None \<Rightarrow> [] | Some cs \<Rightarrow> cs)"

definition renderFromCues :: "cue list option \<Rightarrow> card_state \<Rightarrow> card_state" where
  "renderFromCues track_cues s0 =
     (let s = s0\<lparr>transcript := [], lines := [], cueToLine := Map.empty,
                 renders := Suc (renders s0)\<rparr>;
          cues = cues_of track_cues
      in if length cues = 0 then s\<lparr>transcript := [Para LoadingPlaceholder]\<rparr>
         else foldl render_cue s (enumerate 0 cues))"

section \<open>The polling timer\<close>

definition maxAttempts :: nat where
  "maxAttempts = 20"

text \<open>\<open>track.cues && track.cues.length\<close>\<close>

definition has_cues :: "cue list option \<Rightarrow> bool" where
  "has_cues track_cues = (case track_cues of None \<Rightarrow> False | Some cs \<Rightarrow> length cs \<noteq> 0)"

text \<open>The timer's callback, given the value of \<open>track.cues\<close> when it runs.\<close>

definition tick :: "cue list option \<Rightarrow> card_state \<Rightarrow> card_state" where
  "tick track_cues s0 =
     (let s = s0\<lparr>attempts := attempts s0 + 1\<rparr> in
      if has_cues track_cues then renderFromCues track_cues (s\<lparr>timer := None\<rparr>)
      else if attempts s \<ge> maxAttempts then renderFromCues track_cues (s\<lparr>timer := None\<rparr>)
      else s)"

section \<open>Highlighting the active cue\<close>

definition clearActive :: "card_state \<Rightarrow> card_state" where
  "clearActive s = s\<lparr>lines := map (\<lambda>l. l\<lparr>active := False\<rparr>) (lines s)\<rparr>"

definition paddingTop :: number where
  "paddingTop = 20"

definition paddingBottom :: number where
  "paddingBottom = 30"

text \<open>\<open>details && details.open && autoScrollCheckbox && autoScrollCheckbox.checked\<close>\<close>

definition doScroll :: "view \<Rightarrow> bool" where
  "doScroll v = (details_open v = Some True \<and> autoscroll_checked v = Some True)"

text \<open>\<open>parent.scrollTop = x\<close>: the element keeps its offset within its scroll range.\<close>

definition set_scrollTop :: "view \<Rightarrow> number \<Rightarrow> card_state \<Rightarrow> card_state" where
  "set_scrollTop v x s = s\<lparr>scrollTop := max 0 (min (scrollMax v) x)\<rparr>"

definition scroll_into_view :: "view \<Rightarrow> nat \<Rightarrow> card_state \<Rightarrow> card_state" where
  "scroll_into_view v i s =
     (let parent = parentRect v; lr = lineRect v i in
      if rect_top lr < dadd (rect_top parent) paddingTop
      then let delta = dsub (rect_top lr) (dadd (rect_top parent) paddingTop)
           in set_scrollTop v (dadd (scrollTop s) delta) s
      else if rect_bottom lr > dsub (rect_bottom parent) paddingBottom
      then let delta = dsub (rect_bottom lr) (dsub (rect_bottom parent) paddingBottom)
           in set_scrollTop v (dadd (scrollTop s) delta) s
      else s)"

definition setActiveCue :: "view \<Rightarrow> cue option \<Rightarrow> card_state \<Rightarrow> card_state" where
  "setActiveCue v cue s0 =
     (case cue of
        None \<Rightarrow> s0
      | Some c \<Rightarrow>
          let s1 = clearActive s0 in
          (case cueToLine s1 c of
             None \<Rightarrow> s1
           | Some i \<Rightarrow>
               let s2 = s1\<lparr>lines := (lines s1)[i := (lines s1 ! i)\<lparr>active := True\<rparr>]\<rparr> in
               if doScroll v then scroll_into_view v i s2 else s2))"

text \<open>\<open>track.activeCues && track.activeCues.length ? track.activeCues[0] : null\<close>\<close>

definition first_active :: "cue list option \<Rightarrow> cue option" where
  "first_active activeCues =
     (case activeCues of None \<Rightarrow> None | Some [] \<Rightarrow> None | Some (c # cs) \<Rightarrow> Some c)"

definition cuechange :: "view \<Rightarrow> cue list option \<Rightarrow> card_state \<Rightarrow> card_state" where
  "cuechange v activeCues s = setActiveCue v (first_active activeCues) s"

section \<open>Seeking\<close>

text \<open>\<open>audio.currentTime = x\<close>: \<open>currentTime\<close> holds the value assigned.\<close>

definition set_currentTime :: "number \<Rightarrow> audio \<Rightarrow> audio" where
  "set_currentTime x a = a\<lparr>currentTime := x, calls := calls a @ [SetCurrentTime x]\<rparr>"

text \<open>\<open>audio.play()\<close>: the page decides how the returned promise settles; playback
  resumes when it is fulfilled.\<close>

definition play :: "promise \<Rightarrow> audio \<Rightarrow> audio \<times> promise" where
  "play outcome a =
     (case outcome of
        Fulfilled \<Rightarrow> (a\<lparr>paused := False, calls := calls a @ [Play]\<rparr>, Fulfilled)
      | Rejected \<Rightarrow> (a\<lparr>calls := calls a @ [Play]\<rparr>, Rejected))"

text \<open>\<open>p.catch(() => {})\<close>: a fulfilled promise passes through, a rejected one
  runs the handler, which returns normally.\<close>

definition catch_ignore :: "promise \<Rightarrow> promise" where
  "catch_ignore p = (case p of Fulfilled \<Rightarrow> Fulfilled | Rejected \<Rightarrow> Fulfilled)"

text \<open>The \<open>jump\<close> closure of the line rendered for cue \<open>c\<close>. The literal \<open>0.01\<close> is the
  double nearest to \<open>1/100\<close>.\<close>

definition jump :: "promise \<Rightarrow> cue \<Rightarrow> card_state \<Rightarrow> card_state" where
  "jump outcome c s =
     (let a1 = set_currentTime (dadd (startTime c) (double_of (1 / 100))) (player s);
          ap = play outcome a1;
          q = catch_ignore (snd ap)
      in s\<lparr>player := fst ap,
           unhandled := unhandled s + (if q = Rejected then 1 else 0)\<rparr>)"

text \<open>The \<open>keydown\<close> listener of a line (\<open>preventDefault\<close> acts on the event only).\<close>

definition line_keydown :: "string \<Rightarrow> promise \<Rightarrow> cue \<Rightarrow> card_state \<Rightarrow> card_state" where
  "line_keydown key outcome c s =
     (if key = ''Enter'' \<or> key = '' '' then jump outcome c s else s)"

text \<open>\<open>audio.duration || Infinity\<close>: \<open>None\<close> is \<open>Infinity\<close>. The falsy durations are
  \<open>NaN\<close> and \<open>0\<close>.\<close>

definition or_Infinity :: "number option \<Rightarrow> number option" where
  "or_Infinity v = (case v of None \<Rightarrow> None | Some x \<Rightarrow> if x = 0 then None else Some x)"

text \<open>\<open>Math.min(cap, x)\<close> for a finite \<open>x\<close> and a cap that may be \<open>Infinity\<close>.\<close>

definition Math_min :: "number option \<Rightarrow> number \<Rightarrow> number" where
  "Math_min cap x = (case cap of None \<Rightarrow> x | Some c \<Rightarrow> min c x)"

text \<open>The click listener of a \<open>button[data-action]\<close>, given the attribute's value.\<close>

definition button_click :: "string \<Rightarrow> card_state \<Rightarrow> card_state" where
  "button_click action s0 =
     (let s1 = (if action = ''jump-back''
                then s0\<lparr>player := set_currentTime (max 0 (dsub (currentTime (player s0)) 5)) (player s0)\<rparr>
                else s0);
          s2 = (if action = ''jump-forward''
                then s1\<lparr>player := set_currentTime
                        (Math_min (or_Infinity (duration (player s1))) (dadd (currentTime (player s1)) 5))
                        (player s1)\<rparr>
                else s1)
      in s2)"

section \<open>Setting up a card and running it\<close>

text \<open>What \<open>setupCard\<close> finds in a card: the audio element and the transcript container
  with its children (\<open>None\<close> when \<open>querySelector\<close> finds nothing), whether the audio has a
  first text track, and the container's scroll offset.\<close>

record card =
  card_audio :: "audio option"
  card_transcript :: "node list option"
  card_has_track :: bool
  card_scrollTop :: number

text \<open>The outcome of \<open>setupCard\<close>: the card is skipped; or it has no track, the warning
  is shown and no listener is installed; or the card runs, from an initial state with the
  timer set.\<close>

datatype card_outcome = Skipped | NoTrack "node list" | Running card_state

definition setupCard :: "card \<Rightarrow> card_outcome" where
  "setupCard c =
     (case (card_audio c, card_transcript c) of
        (Some a, Some children) \<Rightarrow>
          if \<not> card_has_track c then NoTrack [Para NoTrackWarning]
          else Running
            \<lparr>transcript = children, lines = [], cueToLine = Map.empty, attempts = 0,
             timer = Some 150, track_mode = ''hidden'', player = a,
             scrollTop = card_scrollTop c, renders = 0, unhandled = 0\<rparr>
      | _ \<Rightarrow> Skipped)"

text \<open>The events a running card handles. A timer tick carries the value of \<open>track.cues\<close>
  it sees; a cue change the active cues and the page as read; a click or key press on a
  line the index of the line and how \<open>play()\<close> settles; a button click the button's
  \<open>data-action\<close>.\<close>

datatype event =
    TimerTick "cue list option"
  | CueChange "cue list option" view
  | LineClick nat promise
  | LineKeyDown nat string promise
  | ButtonClick string

text \<open>One event. A cleared timer does not call back, and only the lines in \<open>lines\<close> are in
  the page to be clicked.\<close>

fun step :: "card_state \<Rightarrow> event \<Rightarrow> card_state" where
  "step s (TimerTick track_cues) = (if timer s = None then s else tick track_cues s)"
| "step s (CueChange activeCues v) = cuechange v activeCues s"
| "step s (LineClick i outcome) =
     (if i < length (lines s) then jump outcome (line_cue (lines s ! i)) s else s)"
| "step s (LineKeyDown i key outcome) =
     (if i < length (lines s) then line_keydown key outcome (line_cue (lines s ! i)) s else s)"
| "step s (ButtonClick action) = button_click action s"

definition run :: "card_state \<Rightarrow> event list \<Rightarrow> card_state" where
  "run s evs = foldl step s evs"

section \<open>The format of a timestamp\<close>

text \<open>The pattern \<open>MM:SS\<close>: two decimal digits, a colon, two decimal digits.\<close>

definition is_digit :: "char \<Rightarrow> bool" where
  "is_digit c = (c \<in> set ''0123456789'')"

definition is_MM_SS :: "string \<Rightarrow> bool" where
  "is_MM_SS s =
     (case s of
        [a, b, c, d, e] \<Rightarrow> is_digit a \<and> is_digit b \<and> c = CHR '':'' \<and> is_digit d \<and> is_digit e
      | _ \<Rightarrow> False)"

section \<open>Notions used to state the properties\<close>

text \<open>The values of \<open>track.cues\<close> that the timer ticks among some events see, in order.\<close>

fun ticks_of :: "event list \<Rightarrow> cue list option list" where
  "ticks_of [] = []"
| "ticks_of (TimerTick track_cues # evs) = track_cues # ticks_of evs"
| "ticks_of (e # evs) = ticks_of evs"

text \<open>The number of the tick at which polling is to stop: the first tick that sees cues,
  and the last allowed attempt at the latest.\<close>

definition stop_tick :: "cue list option list \<Rightarrow> nat" where
  "stop_tick obs = min maxAttempts (Suc (length (takeWhile (\<lambda>tc. \<not> has_cues tc) obs)))"

text \<open>The number of lines that carry the active marking.\<close>

definition active_count :: "card_state \<Rightarrow> nat" where
  "active_count s = length (filter active (lines s))"

section \<open>A sample card\<close>

text \<open>A card with a track of two cues, \<open>Hello\<close> at 0 s and \<open>World\<close> at 5 s.\<close>

definition hello :: cue where
  "hello = \<lparr>cue_id = 0, startTime = 0, cue_text = ''Hello''\<rparr>"

definition world :: cue where
  "world = \<lparr>cue_id = 1, startTime = 5, cue_text = ''World''\<rparr>"

definition sample_audio :: audio where
  "sample_audio = \<lparr>currentTime = 10, duration = Some 20, paused = True, calls = []\<rparr>"

definition sample_card :: card where
  "sample_card =
     \<lparr>card_audio = Some sample_audio, card_transcript = Some [], card_has_track = True,
      card_scrollTop = 50\<rparr>"

definition sample_state :: card_state where
  "sample_state =
     \<lparr>transcript = [], lines = [], cueToLine = Map.empty, attempts = 0,
      timer = Some 150, track_mode = ''hidden'', player = sample_audio,
      scrollTop = 50, renders = 0, unhandled = 0\<rparr>"

text \<open>A page with the wrapper open and auto-scroll checked: the container spans 100 to 300
  and can scroll to 1000, the first line lies above its padded top and the second below
  its padded bottom.\<close>

definition sample_view :: view where
  "sample_view =
     \<lparr>details_open = Some True, autoscroll_checked = Some True,
      parentRect = \<lparr>rect_top = 100, rect_bottom = 300\<rparr>,
      lineRect = (\<lambda>i. if i = 0 then \<lparr>rect_top = 90, rect_bottom = 110\<rparr>
                       else \<lparr>rect_top = 280, rect_bottom = 300\<rparr>),
      scrollMax = 1000\<rparr>"

text \<open>The same page with auto-scroll unchecked.\<close>

definition quiet_view :: view where
  "quiet_view = sample_view\<lparr>autoscroll_checked := Some False\<rparr>"

text \<open>A page, auto-scroll on, where every line lies inside the padded window.\<close>

definition centred_view :: view where
  "centred_view = sample_view\<lparr>lineRect := (\<lambda>i. \<lparr>rect_top = 150, rect_bottom = 170\<rparr>)\<rparr>"

text \<open>The sample card once its two cues are rendered.\<close>

definition rendered_state :: card_state where
  "rendered_state = run sample_state [TimerTick (Some [hello, world])]"



text \<open>The sample card scrolled to the top and showing its two lines.\<close>

definition top_state :: card_state where
  "top_state = rendered_state\<lparr>scrollTop := 0\<rparr>"

text \<open>A page whose container has its top at the double \<open>0.1\<close>, with the first line's top
  at 0.\<close>

definition fraction_view :: view where
  "fraction_view =
     sample_view\<lparr>parentRect := \<lparr>rect_top = double_of (1 / 10), rect_bottom = 300\<rparr>,
                 lineRect := (\<lambda>i. \<lparr>rect_top = 0, rect_bottom = 20\<rparr>)\<rparr>"



section \<open>Reading a decimal numeral\<close>

text \<open>The number a string of decimal digits denotes.\<close>

definition digit_value :: "char \<Rightarrow> nat" where
  "digit_value c = of_char c - 48"

definition decimal_value :: "string \<Rightarrow> nat" where
  "decimal_value s = foldl (\<lambda>a c. 10 * a + digit_value c) 0 s"

section \<open>Properties of formatTime\<close>

lemma digit_char_0: "digit_char 0 = CHR ''0''"
  by (simp add: digit_char_def)

lemma is_digit_digit_char: "is_digit (digit_char d)"
proof -
  have "d mod 10 < length ''0123456789''" by simp
  then have "''0123456789'' ! (d mod 10) \<in> set ''0123456789''" by (rule nth_mem)
  then show ?thesis by (simp only: is_digit_def digit_char_def)
qed

lemma String_nat_lt10: "n < 10 \<Longrightarrow> String_nat n = [digit_char n]"
  by (subst String_nat.simps) simp

lemma String_nat_lt100:
  "10 \<le> n \<Longrightarrow> n < 100 \<Longrightarrow> String_nat n = [digit_char (n div 10), digit_char (n mod 10)]"
  by (subst String_nat.simps) (simp add: String_nat_lt10)

lemma pad2_String_nat:
  "n < 100 \<Longrightarrow>
   padStart 2 (CHR ''0'') (String_nat n) = [digit_char (n div 10), digit_char (n mod 10)]"
  by (cases "n < 10") (simp_all add: String_nat_lt10 String_nat_lt100 padStart_def digit_char_0)

lemma pad2_String_int:
  "0 \<le> i \<Longrightarrow> i < 100 \<Longrightarrow>
   padStart 2 (CHR ''0'') (String_int i) = [digit_char (nat i div 10), digit_char (nat i mod 10)]"
  by (simp add: String_int_def pad2_String_nat)

lemma js_rem_nonneg: "0 \<le> x \<Longrightarrow> js_rem x 60 = x - 60 * of_int \<lfloor>x / 60\<rfloor>"
  by (simp add: js_rem_def trunc_def)

lemma floor_rem_bounds:
  fixes x :: rat
  shows "0 \<le> \<lfloor>x\<rfloor> - 60 * \<lfloor>x / 60\<rfloor>" and "\<lfloor>x\<rfloor> - 60 * \<lfloor>x / 60\<rfloor> < 60"
proof -
  have a: "of_int \<lfloor>x / 60\<rfloor> \<le> x / 60" by (rule of_int_floor_le)
  have b: "x / 60 < of_int \<lfloor>x / 60\<rfloor> + 1" using floor_correct[of "x / 60"] by simp
  from a have "of_int (60 * \<lfloor>x / 60\<rfloor>) \<le> x" by simp
  then have "60 * \<lfloor>x / 60\<rfloor> \<le> \<lfloor>x\<rfloor>" by (simp only: le_floor_iff)
  then show "0 \<le> \<lfloor>x\<rfloor> - 60 * \<lfloor>x / 60\<rfloor>" by simp
  from b have "x < of_int (60 * \<lfloor>x / 60\<rfloor> + 60)" by simp
  then have "\<lfloor>x\<rfloor> < 60 * \<lfloor>x / 60\<rfloor> + 60" by (simp only: floor_less_iff)
  then show "\<lfloor>x\<rfloor> - 60 * \<lfloor>x / 60\<rfloor> < 60" by simp
qed

lemma floor_div_60: "\<lfloor>x / 60\<rfloor> = \<lfloor>x :: rat\<rfloor> div 60"
proof -
  have "\<lfloor>x\<rfloor> = 60 * \<lfloor>x / 60\<rfloor> + (\<lfloor>x\<rfloor> - 60 * \<lfloor>x / 60\<rfloor>)" by simp
  then have "\<lfloor>x\<rfloor> div 60 = \<lfloor>x / 60\<rfloor>"
    using floor_rem_bounds[of x] by (rule int_div_pos_eq)
  then show ?thesis by simp
qed

lemma floor_js_rem_60: "0 \<le> x \<Longrightarrow> \<lfloor>js_rem x 60\<rfloor> = \<lfloor>x\<rfloor> mod 60"
proof -
  assume "0 \<le> x"
  then have "\<lfloor>js_rem x 60\<rfloor> = \<lfloor>x - of_int (60 * \<lfloor>x / 60\<rfloor>)\<rfloor>"
    by (simp add: js_rem_nonneg)
  also have "\<dots> = \<lfloor>x\<rfloor> - 60 * \<lfloor>x / 60\<rfloor>" by (simp only: floor_diff_of_int)
  also have "\<dots> = \<lfloor>x\<rfloor> mod 60" by (simp add: floor_div_60 minus_mult_div_eq_mod)
  finally show ?thesis .
qed

lemma formatTime_nonneg:
  assumes "0 \<le> x"
  shows "formatTime (Some x) =
         padStart 2 (CHR ''0'') (String_int (\<lfloor>x\<rfloor> div 60)) @ '':'' @
         padStart 2 (CHR ''0'') (String_int (\<lfloor>x\<rfloor> mod 60))"
proof -
  have "max 0 (or_zero (Some x)) = x" using assms by (simp add: or_zero_def)
  then show ?thesis
    using assms by (simp add: formatTime_def Math_floor_def floor_div_60 floor_js_rem_60)
qed

lemma formatTime_below_6000:
  assumes "0 \<le> x" and "x < 6000"
  shows "formatTime (Some x) =
         [digit_char (nat (\<lfloor>x\<rfloor> div 60) div 10), digit_char (nat (\<lfloor>x\<rfloor> div 60) mod 10), CHR '':'',
          digit_char (nat (\<lfloor>x\<rfloor> mod 60) div 10), digit_char (nat (\<lfloor>x\<rfloor> mod 60) mod 10)]"
proof -
  have f0: "0 \<le> \<lfloor>x\<rfloor>" using assms(1) by simp
  have f1: "\<lfloor>x\<rfloor> < 6000" using assms(2) by (simp add: floor_less_iff)
  have "\<And>a::int. 0 \<le> a \<Longrightarrow> a < 6000 \<Longrightarrow> 0 \<le> a div 60 \<and> a div 60 < 100"
    by presburger
  from this[OF f0 f1] have m: "0 \<le> \<lfloor>x\<rfloor> div 60" "\<lfloor>x\<rfloor> div 60 < 100" by blast+
  have r: "0 \<le> \<lfloor>x\<rfloor> mod 60" "\<lfloor>x\<rfloor> mod 60 < 100"
    using pos_mod_bound[of 60 "\<lfloor>x\<rfloor>"] by simp_all
  show ?thesis
    by (simp add: formatTime_nonneg[OF assms(1)] pad2_String_int[OF m] pad2_String_int[OF r])
qed

lemma formatTime_negative: "x < 0 \<Longrightarrow> formatTime (Some x) = ''00:00''"
proof -
  assume "x < 0"
  then have "max 0 (or_zero (Some x)) = 0" by (simp add: or_zero_def)
  then show ?thesis
    by (simp add: formatTime_def Math_floor_def js_rem_def trunc_def String_int_def
        String_nat_lt10 padStart_def digit_char_0)
qed

lemma formatTime_missing: "formatTime None = ''00:00''"
  by (simp add: formatTime_def or_zero_def Math_floor_def js_rem_def trunc_def String_int_def
        String_nat_lt10 padStart_def digit_char_0)

lemma String_nat_nonempty: "String_nat n \<noteq> []"
  by (subst String_nat.simps) simp

lemma String_nat_length_ge2: "10 \<le> n \<Longrightarrow> 2 \<le> length (String_nat n)"
proof -
  assume "10 \<le> n"
  moreover have "1 \<le> length (String_nat (n div 10))"
    using String_nat_nonempty[of "n div 10"] by (cases "String_nat (n div 10)") simp_all
  ultimately show ?thesis by (subst String_nat.simps) simp
qed

lemma String_nat_length_ge3: "100 \<le> n \<Longrightarrow> 3 \<le> length (String_nat n)"
proof -
  assume "100 \<le> n"
  then have "10 \<le> n div 10" by simp
  then have "2 \<le> length (String_nat (n div 10))" by (rule String_nat_length_ge2)
  with \<open>100 \<le> n\<close> show ?thesis by (subst String_nat.simps) simp
qed

lemma formatTime_from_6000:
  assumes "6000 \<le> x"
  shows "5 < length (formatTime (Some x))"
proof -
  have x0: "0 \<le> x" using assms by simp
  have "(6000::int) \<le> \<lfloor>x\<rfloor>" using assms by (simp add: le_floor_iff)
  moreover have "\<And>a::int. 6000 \<le> a \<Longrightarrow> 100 \<le> a div 60" by presburger
  ultimately have m: "100 \<le> \<lfloor>x\<rfloor> div 60" by blast
  then have "100 \<le> nat (\<lfloor>x\<rfloor> div 60)" by simp
  then have "3 \<le> length (String_nat (nat (\<lfloor>x\<rfloor> div 60)))" by (rule String_nat_length_ge3)
  with m have "3 \<le> length (String_int (\<lfloor>x\<rfloor> div 60))" by (simp add: String_int_def)
  then have "3 \<le> length (padStart 2 (CHR ''0'') (String_int (\<lfloor>x\<rfloor> div 60)))"
    by (simp add: padStart_def)
  moreover have "2 \<le> length (padStart 2 (CHR ''0'') (String_int (\<lfloor>x\<rfloor> mod 60)))"
    by (simp add: padStart_def)
  ultimately show ?thesis by (simp add: formatTime_nonneg[OF x0])
qed

lemma is_MM_SS_length: "is_MM_SS s \<Longrightarrow> length s = 5"
  by (auto simp: is_MM_SS_def split: list.splits)

lemma digit_value_digit_char: "k < 10 \<Longrightarrow> digit_value (digit_char k) = k"
proof -
  assume "k < 10"
  then have "k \<in> {0, 1, 2, 3, 4, 5, 6, 7, 8, 9}" by auto
  then show ?thesis by (auto simp: digit_value_def digit_char_def)
qed

lemma digit_char_nonzero: "0 < k \<Longrightarrow> k < 10 \<Longrightarrow> digit_char k \<noteq> CHR ''0''"
proof -
  assume "0 < k" "k < 10"
  then have "k \<in> {1, 2, 3, 4, 5, 6, 7, 8, 9}" by auto
  then show ?thesis by (auto simp: digit_char_def)
qed

lemma decimal_value_snoc: "decimal_value (s @ [c]) = 10 * decimal_value s + digit_value c"
  by (simp add: decimal_value_def)

lemma String_nat_step: "10 \<le> n \<Longrightarrow> String_nat n = String_nat (n div 10) @ [digit_char (n mod 10)]"
  by (subst String_nat.simps) simp

lemma decimal_value_String_nat: "decimal_value (String_nat n) = n"
proof (induction n rule: String_nat.induct)
  case (1 n)
  show ?case
  proof (cases "n < 10")
    case True
    then show ?thesis
      by (simp add: String_nat_lt10 decimal_value_def digit_value_digit_char)
  next
    case False
    then have s: "String_nat n = String_nat (n div 10) @ [digit_char (n mod 10)]"
      by (intro String_nat_step) simp
    from False "1.IH" have "decimal_value (String_nat (n div 10)) = n div 10" by simp
    then show ?thesis
      by (simp add: s decimal_value_snoc digit_value_digit_char)
  qed
qed

lemma digits_String_nat: "list_all is_digit (String_nat n)"
proof (induction n rule: String_nat.induct)
  case (1 n)
  show ?case
  proof (cases "n < 10")
    case True
    then show ?thesis by (simp add: String_nat_lt10 is_digit_digit_char)
  next
    case False
    then have s: "String_nat n = String_nat (n div 10) @ [digit_char (n mod 10)]"
      by (intro String_nat_step) simp
    from False "1.IH" have "list_all is_digit (String_nat (n div 10))" by simp
    then show ?thesis by (simp add: s is_digit_digit_char)
  qed
qed

lemma hd_String_nat: "0 < n \<Longrightarrow> hd (String_nat n) \<noteq> CHR ''0''"
proof (induction n rule: String_nat.induct)
  case (1 n)
  show ?case
  proof (cases "n < 10")
    case True
    with "1.prems" show ?thesis by (simp add: String_nat_lt10 digit_char_nonzero)
  next
    case False
    then have s: "String_nat n = String_nat (n div 10) @ [digit_char (n mod 10)]"
      by (intro String_nat_step) simp
    from False have "0 < n div 10" by simp
    with False "1.IH" have "hd (String_nat (n div 10)) \<noteq> CHR ''0''" by simp
    then show ?thesis by (simp add: s String_nat_nonempty)
  qed
qed

lemma formatTime_minutes_100:
  assumes "6000 \<le> z"
  shows "formatTime (Some z) =
           String_nat (nat (\<lfloor>z\<rfloor> div 60)) @
           [CHR '':'', digit_char (nat (\<lfloor>z\<rfloor> mod 60) div 10), digit_char (nat (\<lfloor>z\<rfloor> mod 60) mod 10)]"
    and "3 \<le> length (String_nat (nat (\<lfloor>z\<rfloor> div 60)))"
    and "hd (String_nat (nat (\<lfloor>z\<rfloor> div 60))) \<noteq> CHR ''0''"
proof -
  have z0: "0 \<le> z" using assms by simp
  have "(6000::int) \<le> \<lfloor>z\<rfloor>" using assms by (simp add: le_floor_iff)
  moreover have "\<And>a::int. 6000 \<le> a \<Longrightarrow> 100 \<le> a div 60" by presburger
  ultimately have m: "100 \<le> \<lfloor>z\<rfloor> div 60" by blast
  then have n: "100 \<le> nat (\<lfloor>z\<rfloor> div 60)" by simp
  then show l: "3 \<le> length (String_nat (nat (\<lfloor>z\<rfloor> div 60)))" by (rule String_nat_length_ge3)
  from n have "0 < nat (\<lfloor>z\<rfloor> div 60)" by simp
  then show "hd (String_nat (nat (\<lfloor>z\<rfloor> div 60))) \<noteq> CHR ''0''" by (rule hd_String_nat)
  have si: "String_int (\<lfloor>z\<rfloor> div 60) = String_nat (nat (\<lfloor>z\<rfloor> div 60))"
    using m by (simp add: String_int_def)
  have p: "padStart 2 (CHR ''0'') (String_int (\<lfloor>z\<rfloor> div 60)) = String_nat (nat (\<lfloor>z\<rfloor> div 60))"
    using l by (simp add: si padStart_def)
  have r: "0 \<le> \<lfloor>z\<rfloor> mod 60" "\<lfloor>z\<rfloor> mod 60 < 100"
    using pos_mod_bound[of 60 "\<lfloor>z\<rfloor>"] by simp_all
  show "formatTime (Some z) =
           String_nat (nat (\<lfloor>z\<rfloor> div 60)) @
           [CHR '':'', digit_char (nat (\<lfloor>z\<rfloor> mod 60) div 10), digit_char (nat (\<lfloor>z\<rfloor> mod 60) mod 10)]"
    by (simp add: formatTime_nonneg[OF z0] p pad2_String_int[OF r])
qed

text \<open>
  Claim C2, as the code has it. For every input \<open>x\<close> with \<open>0 \<le> x < 6000\<close> the result is
  \<open>MM:SS\<close>: the two digits of \<open>\<lfloor>x\<rfloor> div 60\<close>, a colon, the two digits of \<open>\<lfloor>x\<rfloor> mod 60\<close>.
  From 6000 seconds (100 minutes) on the result is longer than \<open>MM:SS\<close>; for an input
  below \<open>2^53\<close> it is the decimal numeral of \<open>\<lfloor>x\<rfloor> div 60\<close>, of three digits or more
  and without a leading zero, a colon, and the two digits of \<open>\<lfloor>x\<rfloor> mod 60\<close>. The digit
  characters denote their digits. A negative or a missing input gives \<open>00:00\<close>;
  \<open>formatTime(125.7)\<close> is \<open>02:05\<close> and \<open>formatTime(-5)\<close> is \<open>00:00\<close>.
\<close>

theorem formatTime_MM_SS:
  "(0 \<le> x \<and> x < 6000 \<longrightarrow>
      is_MM_SS (formatTime (Some x)) \<and>
      formatTime (Some x) =
        [digit_char (nat (\<lfloor>x\<rfloor> div 60) div 10), digit_char (nat (\<lfloor>x\<rfloor> div 60) mod 10), CHR '':'',
         digit_char (nat (\<lfloor>x\<rfloor> mod 60) div 10), digit_char (nat (\<lfloor>x\<rfloor> mod 60) mod 10)]) \<and>
   (6000 \<le> z \<longrightarrow> 5 < length (formatTime (Some z)) \<and> \<not> is_MM_SS (formatTime (Some z))) \<and>
   (6000 \<le> z \<and> z < 2 ^ 53 \<longrightarrow>
      formatTime (Some z) =
        String_nat (nat (\<lfloor>z\<rfloor> div 60)) @
        [CHR '':'', digit_char (nat (\<lfloor>z\<rfloor> mod 60) div 10), digit_char (nat (\<lfloor>z\<rfloor> mod 60) mod 10)] \<and>
      3 \<le> length (String_nat (nat (\<lfloor>z\<rfloor> div 60))) \<and>
      list_all is_digit (String_nat (nat (\<lfloor>z\<rfloor> div 60))) \<and>
      hd (String_nat (nat (\<lfloor>z\<rfloor> div 60))) \<noteq> CHR ''0'' \<and>
      decimal_value (String_nat (nat (\<lfloor>z\<rfloor> div 60))) = nat (\<lfloor>z\<rfloor> div 60)) \<and>
   (k < 10 \<longrightarrow> is_digit (digit_char k) \<and> digit_value (digit_char k) = k) \<and>
   (y < 0 \<longrightarrow> formatTime (Some y) = ''00:00'') \<and>
   formatTime None = ''00:00'' \<and>
   formatTime (Some (1257 / 10)) = ''02:05'' \<and>
   formatTime (Some (- 5)) = ''00:00''"
proof -
  have a: "is_MM_SS (formatTime (Some x))" if "0 \<le> x" "x < 6000"
    by (simp add: formatTime_below_6000[OF that] is_MM_SS_def is_digit_digit_char)
  have b: "\<not> is_MM_SS (formatTime (Some z))" if "6000 \<le> z"
    using formatTime_from_6000[OF that] is_MM_SS_length[of "formatTime (Some z)"] by auto
  have c: "formatTime (Some (1257 / 10)) = ''02:05''" by code_simp
  have d: "formatTime (Some (- 5)) = ''00:00''" by (rule formatTime_negative) simp
  note e = formatTime_minutes_100[of z] digits_String_nat[of "nat (\<lfloor>z\<rfloor> div 60)"]
    decimal_value_String_nat[of "nat (\<lfloor>z\<rfloor> div 60)"]
  note f = is_digit_digit_char[of k] digit_value_digit_char[of k]
  from a b c d e f formatTime_below_6000[of x] formatTime_from_6000[of z]
    formatTime_negative[of y] formatTime_missing
  show ?thesis by blast
qed

theorem formatTime_MM_SS_witness:
  "(0::rat) \<le> 1257 / 10 \<and> (1257 / 10 :: rat) < 6000 \<and> (6000::rat) \<le> 6000 \<and>
   (6000::rat) < 2 ^ 53 \<and> (7::nat) < 10 \<and> (- 5 :: rat) < 0 \<and>
   is_MM_SS (formatTime (Some (1257 / 10))) \<and>
   \<not> is_MM_SS (formatTime (Some 6000)) \<and>
   3 \<le> length (String_nat (nat (\<lfloor>6000 :: rat\<rfloor> div 60))) \<and>
   decimal_value (String_nat (nat (\<lfloor>6000 :: rat\<rfloor> div 60))) = nat (\<lfloor>6000 :: rat\<rfloor> div 60) \<and>
   digit_value (digit_char 7) = 7 \<and>
   formatTime (Some (- 5)) = ''00:00''"
proof -
  have h: "(0::rat) \<le> 1257 / 10" "(1257 / 10 :: rat) < 6000" "(6000::rat) \<le> 6000"
    "(6000::rat) < 2 ^ 53" "(7::nat) < 10" "(- 5 :: rat) < 0"
    by simp_all
  from formatTime_MM_SS [of "1257 / 10" 6000 7 "- 5"] h show ?thesis by blast
qed

text \<open>The claim as written fails at 6000 seconds: the result is \<open>100:00\<close>.\<close>

theorem formatTime_MM_SS_counterexample:
  "(0::rat) \<le> 6000 \<and> formatTime (Some 6000) = ''100:00'' \<and> \<not> is_MM_SS (formatTime (Some 6000))"
  by code_simp

lemma setup_sample: "setupCard sample_card = Running sample_state"
  by (simp add: setupCard_def sample_card_def sample_state_def)

section \<open>Properties of rounding\<close>

lemma pow2_powi: "pow2 e = 2 powi e"
  by (simp add: pow2_def power_int_def inverse_eq_divide power_one_over)

lemma pow2_pos: "0 < pow2 e"
  by (simp add: pow2_powi)

lemma pow2_add: "pow2 (a + b) = pow2 a * pow2 b"
  by (simp add: pow2_powi power_int_add)

lemma pow2_diff: "pow2 (a - b) = pow2 a / pow2 b"
  by (simp add: pow2_powi power_int_diff)

lemma pow2_mono: "a \<le> b \<Longrightarrow> pow2 a \<le> pow2 b"
  by (simp add: pow2_powi power_int_increasing)

lemma pow2_less_cancel: "pow2 a < pow2 b \<Longrightarrow> a < b"
  by (rule ccontr) (use pow2_mono[of b a] in simp)

lemma pow2_nat: "pow2 (int n) = 2 ^ n"
  by (simp add: pow2_def)

lemma quotient_of_abs:
  assumes "x \<noteq> 0"
  shows "0 < fst (quotient_of \<bar>x\<bar>)" and "0 < snd (quotient_of \<bar>x\<bar>)"
    and "\<bar>x\<bar> = of_int (fst (quotient_of \<bar>x\<bar>)) / of_int (snd (quotient_of \<bar>x\<bar>))"
proof -
  obtain p q where pq: "quotient_of \<bar>x\<bar> = (p, q)" by (cases "quotient_of \<bar>x\<bar>")
  have q: "0 < q" using quotient_of_denom_pos[OF pq] .
  have e: "\<bar>x\<bar> = of_int p / of_int q" using quotient_of_div[OF pq] .
  have "0 < \<bar>x\<bar>" using assms by simp
  with e q have "0 < p" by (simp add: zero_less_divide_iff)
  then show "0 < fst (quotient_of \<bar>x\<bar>)" by (simp only: pq fst_conv)
  from q show "0 < snd (quotient_of \<bar>x\<bar>)" by (simp only: pq snd_conv)
  show "\<bar>x\<bar> = of_int (fst (quotient_of \<bar>x\<bar>)) / of_int (snd (quotient_of \<bar>x\<bar>))"
    unfolding pq fst_conv snd_conv by (rule e)
qed

lemma bitlen_rat_bounds:
  assumes "0 < p"
  shows "pow2 (bitlen p - 1) \<le> of_int p" and "(of_int p :: rat) < pow2 (bitlen p)"
proof -
  from bitlen_bounds[OF assms] have a: "2 ^ nat (bitlen p - 1) \<le> p" and b: "p < 2 ^ nat (bitlen p)"
    by simp_all
  have g: "1 \<le> bitlen p" using assms by (simp add: bitlen_alt_def)
  from a have "(of_int (2 ^ nat (bitlen p - 1)) :: rat) \<le> of_int p" by (simp only: of_int_le_iff)
  then show "pow2 (bitlen p - 1) \<le> of_int p" using g by (simp add: pow2_def)
  from b have "(of_int p :: rat) < of_int (2 ^ nat (bitlen p))" by (simp only: of_int_less_iff)
  then show "(of_int p :: rat) < pow2 (bitlen p)" using g by (simp add: pow2_def)
qed

lemma expo_bounds:
  assumes "x \<noteq> 0"
  shows "pow2 (expo x) \<le> \<bar>x\<bar>" and "\<bar>x\<bar> < pow2 (expo x + 1)"
proof -
  let ?p = "fst (quotient_of \<bar>x\<bar>)" and ?q = "snd (quotient_of \<bar>x\<bar>)"
  let ?d = "bitlen ?p - bitlen ?q"
  note pq = quotient_of_abs[OF assms]
  note bp = bitlen_rat_bounds[OF pq(1)] and bq = bitlen_rat_bounds[OF pq(2)]
  have qpos: "(0::rat) < of_int ?q" using pq(2) by simp
  have lo: "pow2 (?d - 1) \<le> \<bar>x\<bar>"
  proof -
    have "pow2 (?d - 1) * of_int ?q \<le> pow2 (?d - 1) * pow2 (bitlen ?q)"
      using bq(2) pow2_pos[of "?d - 1"] by (simp add: less_imp_le)
    also have "\<dots> = pow2 (bitlen ?p - 1)" by (simp add: pow2_add[symmetric])
    also have "\<dots> \<le> of_int ?p" by (rule bp(1))
    finally have "pow2 (?d - 1) \<le> of_int ?p / of_int ?q"
      using qpos by (simp add: pos_le_divide_eq)
    then show ?thesis using pq(3) by simp
  qed
  have hi: "\<bar>x\<bar> < pow2 (?d + 1)"
  proof -
    have "of_int ?p < pow2 (bitlen ?p)" by (rule bp(2))
    also have "\<dots> = pow2 (?d + 1) * pow2 (bitlen ?q - 1)" by (simp add: pow2_add[symmetric])
    also have "\<dots> \<le> pow2 (?d + 1) * of_int ?q"
      using bq(1) pow2_pos[of "?d + 1"] by simp
    finally have "of_int ?p / of_int ?q < pow2 (?d + 1)"
      using qpos by (simp add: pos_divide_less_eq)
    then show ?thesis using pq(3) by simp
  qed
  show "pow2 (expo x) \<le> \<bar>x\<bar>"
    using lo by (simp add: expo_def Let_def)
  show "\<bar>x\<bar> < pow2 (expo x + 1)"
  proof (cases "pow2 ?d \<le> \<bar>x\<bar>")
    case True
    then show ?thesis using hi by (simp add: expo_def Let_def)
  next
    case False
    then show ?thesis by (simp add: expo_def Let_def)
  qed
qed

lemma expo_unique:
  assumes "pow2 e \<le> \<bar>x\<bar>" and "\<bar>x\<bar> < pow2 (e + 1)"
  shows "expo x = e"
proof -
  have nz: "x \<noteq> 0" using assms(1) pow2_pos[of e] by auto
  note b = expo_bounds[OF nz]
  from assms(1) b(2) have "pow2 e < pow2 (expo x + 1)" by simp
  then have "e < expo x + 1" by (rule pow2_less_cancel)
  moreover from b(1) assms(2) have "pow2 (expo x) < pow2 (e + 1)" by simp
  then have "expo x < e + 1" by (rule pow2_less_cancel)
  ultimately show ?thesis by simp
qed

lemma expo_le:
  assumes "x \<noteq> 0" and "\<bar>x\<bar> < pow2 (e + 1)"
  shows "expo x \<le> e"
proof -
  from expo_bounds(1)[OF assms(1)] assms(2) have "pow2 (expo x) < pow2 (e + 1)" by simp
  then have "expo x < e + 1" by (rule pow2_less_cancel)
  then show ?thesis by simp
qed

lemma round_even_cases: "round_even y = \<lfloor>y\<rfloor> \<or> round_even y = \<lfloor>y\<rfloor> + 1"
  by (simp add: round_even_def Let_def)

lemma round_even_int: "round_even (of_int k) = k"
  by (simp add: round_even_def Let_def)


lemma round_even_ge: "of_int n \<le> y \<Longrightarrow> n \<le> round_even y"
proof -
  assume "of_int n \<le> y"
  then have "n \<le> \<lfloor>y\<rfloor>" by (simp add: le_floor_iff)
  then show ?thesis using round_even_cases[of y] by auto
qed

lemma round_even_le: "y \<le> of_int n \<Longrightarrow> round_even y \<le> n"
proof (cases "y = of_int \<lfloor>y\<rfloor>")
  case True
  assume "y \<le> of_int n"
  then have "(of_int \<lfloor>y\<rfloor> :: rat) \<le> of_int n" using True by simp
  then have "\<lfloor>y\<rfloor> \<le> n" by (simp only: of_int_le_iff)
  moreover have "round_even y = \<lfloor>y\<rfloor>" by (subst True) (rule round_even_int)
  ultimately show ?thesis by simp
next
  case False
  assume h: "y \<le> of_int n"
  have "of_int \<lfloor>y\<rfloor> \<le> y" by (rule of_int_floor_le)
  with False have "of_int \<lfloor>y\<rfloor> < y" by (auto simp only: order_le_less)
  with h have "(of_int \<lfloor>y\<rfloor> :: rat) < of_int n" by simp
  then have "\<lfloor>y\<rfloor> < n" by (simp only: of_int_less_iff)
  then show ?thesis using round_even_cases[of y] by auto
qed

lemma grid_pos: "0 < grid x"
  by (simp add: grid_def pow2_pos)


lemma expo_normal:
  assumes "pow2 (- 1022) \<le> \<bar>x\<bar>"
  shows "x \<noteq> 0" and "- 1022 \<le> expo x" and "grid x = pow2 (expo x) / 2 ^ 52"
proof -
  show nz: "x \<noteq> 0" using assms pow2_pos[of "- 1022"] by auto
  from assms expo_bounds(2)[OF nz] have "pow2 (- 1022) < pow2 (expo x + 1)" by simp
  then have "- 1022 < expo x + 1" by (rule pow2_less_cancel)
  then show e: "- 1022 \<le> expo x" by simp
  then have "max (expo x) (- 1022) = expo x" by simp
  then show "grid x = pow2 (expo x) / 2 ^ 52"
    by (simp add: grid_def pow2_diff pow2_nat[of 52, simplified])
qed


lemma double_of_exact:
  assumes "x = of_int k * pow2 a" and "max (expo x) (- 1022) - 52 \<le> a"
  shows "double_of x = x"
proof -
  define e where "e = max (expo x) (- 1022) - 52"
  define g where "g = grid x"
  define n where "n = nat (a - e)"
  have ge: "g = pow2 e" by (simp add: g_def e_def grid_def)
  have gp: "0 < g" by (simp add: g_def grid_pos)
  have le: "e \<le> a" using assms(2) by (simp add: e_def)
  have "pow2 a = pow2 (a - e) * pow2 e" by (simp add: pow2_add[symmetric])
  moreover have "pow2 (a - e) = of_int (2 ^ n)" using le by (simp add: pow2_def n_def)
  ultimately have p: "pow2 a = of_int (2 ^ n) * g" by (simp add: ge)
  have "of_int k * pow2 a = of_int (k * 2 ^ n) * g" by (simp add: p)
  then have x: "x = of_int (k * 2 ^ n) * g" using assms(1) by simp
  then have q: "x / g = of_int (k * 2 ^ n)" using gp by simp
  have "double_of x = of_int (round_even (x / g)) * g" by (simp add: double_of_def g_def)
  also have "\<dots> = of_int (k * 2 ^ n) * g" by (simp only: q round_even_int)
  also have "\<dots> = x" by (rule x[symmetric])
  finally show ?thesis .
qed


lemma double_of_nonneg: "0 \<le> x \<Longrightarrow> 0 \<le> double_of x"
proof -
  assume "0 \<le> x"
  then have "of_int 0 \<le> x / grid x" using grid_pos[of x] by simp
  then have "0 \<le> round_even (x / grid x)" by (rule round_even_ge)
  then show ?thesis using grid_pos[of x] by (simp add: double_of_def)
qed

text \<open>A double is a multiple of the least subnormal.\<close>

lemma is_double_multiple:
  assumes "is_double x"
  shows "\<exists>k. x = of_int k * pow2 (- 1074)"
proof -
  let ?g = "max (expo x) (- 1022) - 52"
  have "pow2 ?g = pow2 (?g + 1074) * pow2 (- 1074)" by (simp add: pow2_add[symmetric])
  moreover have "pow2 (?g + 1074) = of_int (2 ^ nat (?g + 1074))" by (simp add: pow2_def)
  ultimately have "grid x = of_int (2 ^ nat (?g + 1074)) * pow2 (- 1074)"
    by (simp add: grid_def)
  moreover from assms have "x = of_int (round_even (x / grid x)) * grid x"
    by (simp add: is_double_def double_of_def)
  ultimately have "x = of_int (round_even (x / grid x) * 2 ^ nat (?g + 1074)) * pow2 (- 1074)"
    by (metis (no_types, lifting) mult.assoc of_int_mult)
  then show ?thesis by blast
qed

text \<open>The difference of two distinct doubles, divided by its grid, is an integer or at
  least \<open>2^52\<close> in magnitude: it does not round to zero.\<close>

lemma diff_quotient:
  assumes "is_double a" and "is_double b" and "a \<noteq> b"
  shows "(\<exists>m. (a - b) / grid (a - b) = of_int m) \<or> 2 ^ 52 \<le> \<bar>(a - b) / grid (a - b)\<bar>"
proof -
  define x where "x = a - b"
  define g where "g = grid x"
  have gp: "0 < g" by (simp add: g_def grid_pos)
  have nz: "x \<noteq> 0" using assms(3) by (simp add: x_def)
  have "(\<exists>m. x / g = of_int m) \<or> 2 ^ 52 \<le> \<bar>x / g\<bar>"
  proof (cases "pow2 (- 1022) \<le> \<bar>x\<bar>")
    case True
    note n = expo_normal[OF True]
    have "g = pow2 (expo x) / 2 ^ 52" by (simp add: g_def n(3))
    moreover have "pow2 (expo x) \<le> \<bar>x\<bar>" by (rule expo_bounds(1)[OF nz])
    ultimately have "2 ^ 52 * g \<le> \<bar>x\<bar>" by simp
    then have "2 ^ 52 \<le> \<bar>x\<bar> / g" using gp by (simp add: pos_le_divide_eq)
    then have "2 ^ 52 \<le> \<bar>x / g\<bar>" using gp by (simp add: abs_divide)
    then show ?thesis by blast
  next
    case False
    then have small: "\<bar>x\<bar> < pow2 (- 1022)" by simp
    have "expo x \<le> - 1023" using small by (intro expo_le[OF nz]) simp
    then have g: "g = pow2 (- 1074)" by (simp add: g_def grid_def max_def)
    from is_double_multiple[OF assms(1)] is_double_multiple[OF assms(2)]
    obtain k l where "a = of_int k * pow2 (- 1074)" "b = of_int l * pow2 (- 1074)" by blast
    then have "x = of_int (k - l) * g" by (simp add: x_def g left_diff_distrib)
    then have "x / g = of_int (k - l)" using gp by simp
    then show ?thesis by blast
  qed
  then show ?thesis by (simp only: x_def g_def)
qed

lemma double_of_diff_neg:
  assumes "is_double a" and "is_double b" and "a < b"
  shows "double_of (a - b) < 0"
proof -
  define x where "x = a - b"
  define g where "g = grid x"
  have gp: "0 < g" by (simp add: g_def grid_pos)
  have neg: "x / g < 0" using assms(3) gp by (simp add: x_def divide_less_0_iff)
  have ne: "a \<noteq> b" using assms(3) by simp
  from diff_quotient[OF assms(1,2) ne]
  have c: "(\<exists>m. x / g = of_int m) \<or> 2 ^ 52 \<le> \<bar>x / g\<bar>" by (simp only: x_def g_def)
  have "x / g \<le> of_int (- 1)"
  proof (rule disjE[OF c])
    assume "\<exists>m. x / g = of_int m"
    then obtain m where m: "x / g = of_int m" by blast
    with neg have "(of_int m :: rat) < 0" by simp
    then have "m \<le> - 1" by simp
    then have "(of_int m :: rat) \<le> of_int (- 1)" by (simp only: of_int_le_iff)
    then show ?thesis by (simp only: m)
  next
    assume "2 ^ 52 \<le> \<bar>x / g\<bar>"
    then show ?thesis using neg by (simp add: abs_if split: if_splits)
  qed
  then have "round_even (x / g) \<le> - 1" by (rule round_even_le)
  then have "(of_int (round_even (x / g)) :: rat) \<le> - 1"
    by (metis of_int_le_iff of_int_minus of_int_1)
  then have "of_int (round_even (x / g)) * g \<le> - 1 * g"
    using gp by (intro mult_right_mono) simp_all
  then have "of_int (round_even (x / g)) * g < 0" using gp by simp
  then show ?thesis by (simp add: double_of_def x_def g_def)
qed

lemma double_of_diff_pos:
  assumes "is_double a" and "is_double b" and "b < a"
  shows "0 < double_of (a - b)"
proof -
  define x where "x = a - b"
  define g where "g = grid x"
  have gp: "0 < g" by (simp add: g_def grid_pos)
  have pos: "0 < x / g" using assms(3) gp by (simp add: x_def)
  have ne: "a \<noteq> b" using assms(3) by simp
  from diff_quotient[OF assms(1,2) ne]
  have c: "(\<exists>m. x / g = of_int m) \<or> 2 ^ 52 \<le> \<bar>x / g\<bar>" by (simp only: x_def g_def)
  have "of_int 1 \<le> x / g"
  proof (rule disjE[OF c])
    assume "\<exists>m. x / g = of_int m"
    then obtain m where m: "x / g = of_int m" by blast
    with pos have "(0 :: rat) < of_int m" by simp
    then have "1 \<le> m" by simp
    then have "(of_int 1 :: rat) \<le> of_int m" by (simp only: of_int_le_iff)
    then show ?thesis by (simp only: m)
  next
    assume "2 ^ 52 \<le> \<bar>x / g\<bar>"
    then show ?thesis using pos by (simp add: abs_if split: if_splits)
  qed
  then have "1 \<le> round_even (x / g)" by (rule round_even_ge)
  then have "(1 :: rat) \<le> of_int (round_even (x / g))"
    by (metis of_int_le_iff of_int_1)
  then have "1 * g \<le> of_int (round_even (x / g)) * g"
    using gp by (intro mult_right_mono) simp_all
  then have "0 < of_int (round_even (x / g)) * g" using gp by simp
  then show ?thesis by (simp add: double_of_def x_def g_def)
qed

subsection \<open>Rounding twice, and exact differences\<close>


lemma pow2_1: "pow2 1 = 2"
  by (simp add: pow2_def)

lemma pow2_52: "pow2 52 = 2 ^ 52"
  using pow2_nat[of 52] by simp

lemma pow2_53: "pow2 53 = 2 ^ 53"
  using pow2_nat[of 53] by simp

lemma pow2_strict_mono: "a < b \<Longrightarrow> pow2 a < pow2 b"
  by (simp add: pow2_powi power_int_strict_increasing)

lemma quotient_bound: "\<bar>x / grid x\<bar> \<le> 2 ^ 53"
proof (cases "pow2 (- 1022) \<le> \<bar>x\<bar>")
  case True
  note n = expo_normal[OF True]
  have "\<bar>x\<bar> < pow2 (expo x + 1)" by (rule expo_bounds(2)[OF n(1)])
  also have "\<dots> = 2 * pow2 (expo x)" by (simp add: pow2_add pow2_1)
  also have "\<dots> = 2 ^ 53 * grid x" by (simp add: n(3))
  finally have "\<bar>x\<bar> / grid x < 2 ^ 53" using grid_pos[of x] by (simp add: pos_divide_less_eq)
  then show ?thesis using grid_pos[of x] by (simp add: abs_divide)
next
  case False
  then have small: "\<bar>x\<bar> < pow2 (- 1022)" by simp
  have g: "pow2 (- 1074) \<le> grid x" unfolding grid_def by (rule pow2_mono) simp
  have "pow2 (- 1022) = pow2 52 * pow2 (- 1074)"
    using pow2_add[of 52 "- 1074"] by simp
  also have "\<dots> = 2 ^ 52 * pow2 (- 1074)" by (simp only: pow2_52)
  also have "\<dots> \<le> 2 ^ 52 * grid x" using g by simp
  finally have "\<bar>x\<bar> < 2 ^ 52 * grid x" using small by simp
  then have "\<bar>x\<bar> / grid x < 2 ^ 52" using grid_pos[of x] by (simp add: pos_divide_less_eq)
  then show ?thesis using grid_pos[of x] by (simp add: abs_divide)
qed

lemma round_even_bound: "\<bar>round_even (x / grid x)\<bar> \<le> 2 ^ 53"
proof -
  define q where "q = x / grid x"
  have b: "\<bar>q\<bar> \<le> 2 ^ 53" unfolding q_def by (rule quotient_bound)
  then have "q \<le> 2 ^ 53" by (rule abs_le_D1)
  then have "q \<le> of_int (2 ^ 53)" by simp
  then have u: "round_even q \<le> 2 ^ 53" by (rule round_even_le)
  from b have "- q \<le> 2 ^ 53" by (rule abs_le_D2)
  then have "of_int (- (2 ^ 53)) \<le> q" by simp
  then have l: "- (2 ^ 53) \<le> round_even q" by (rule round_even_ge)
  from u l have "\<bar>round_even q\<bar> \<le> 2 ^ 53" by (simp only: abs_le_iff) simp
  then show ?thesis by (simp only: q_def)
qed

text \<open>The result of rounding is a double.\<close>

lemma is_double_double_of: "is_double (double_of x)"
proof -
  define e where "e = max (expo x) (- 1022) - 52"
  define r where "r = round_even (x / grid x)"
  define y where "y = double_of x"
  have ge: "grid x = pow2 e" by (simp add: e_def grid_def)
  have y: "y = of_int r * pow2 e" by (simp add: y_def double_of_def r_def ge)
  have rb: "\<bar>r\<bar> \<le> 2 ^ 53" unfolding r_def by (rule round_even_bound)
  have e0: "- 1074 \<le> e" by (simp add: e_def)
  have "double_of y = y"
  proof (cases "\<bar>r\<bar> = 2 ^ 53")
    case True
    then have "r = 2 ^ 53 \<or> r = - (2 ^ 53)" by (simp add: abs_if split: if_splits)
    have p: "pow2 (e + 53) = 2 ^ 53 * pow2 e"
      using pow2_add[of 53 e] by (simp only: pow2_53 add.commute)
    from \<open>r = 2 ^ 53 \<or> r = - (2 ^ 53)\<close>
    have "\<exists>k::int. \<bar>k\<bar> = 1 \<and> y = of_int k * pow2 (e + 53)"
    proof
      assume "r = 2 ^ 53"
      then have "y = of_int 1 * pow2 (e + 53)" by (simp add: y p)
      then show ?thesis by (intro exI[of _ 1]) simp
    next
      assume "r = - (2 ^ 53)"
      then have "y = of_int (- 1) * pow2 (e + 53)" by (simp add: y p)
      then show ?thesis by (intro exI[of _ "- 1"]) simp
    qed
    then obtain k :: int where k: "\<bar>k\<bar> = 1" and y2: "y = of_int k * pow2 (e + 53)" by blast
    have "\<bar>y\<bar> = of_int \<bar>k\<bar> * pow2 (e + 53)"
      using pow2_pos[of "e + 53"] by (simp add: y2 abs_mult)
    then have ay: "\<bar>y\<bar> = pow2 (e + 53)" by (simp add: k)
    have "pow2 (e + 53) < pow2 (e + 53 + 1)" by (rule pow2_strict_mono) simp
    then have "expo y = e + 53"
      by (intro expo_unique) (simp_all only: ay order_refl)
    then have "max (expo y) (- 1022) - 52 \<le> e + 53" using e0 by simp
    with y2 show ?thesis by (rule double_of_exact)
  next
    case False
    with rb have rl: "\<bar>r\<bar> < 2 ^ 53" by simp
    show ?thesis
    proof (cases "y = 0")
      case True
      have "round_even (0 / grid 0) = 0" using round_even_int[of 0] by simp
      then show ?thesis by (simp add: True double_of_def)
    next
      case nz: False
      have "\<bar>y\<bar> = of_int \<bar>r\<bar> * pow2 e" using pow2_pos[of e] by (simp add: y abs_mult)
      also have "\<dots> < of_int (2 ^ 53) * pow2 e"
        using rl pow2_pos[of e] by (intro mult_strict_right_mono) (simp_all only: of_int_less_iff)
      also have "\<dots> = pow2 (e + 52 + 1)"
        using pow2_add[of 53 e] by (simp add: pow2_53 add.commute)
      finally have "expo y \<le> e + 52" by (rule expo_le[OF nz])
      then have "max (expo y) (- 1022) - 52 \<le> e" using e0 by (simp add: e_def)
      with y show ?thesis by (rule double_of_exact)
    qed
  qed
  then show ?thesis by (simp add: is_double_def y_def)
qed



section \<open>Properties of the card\<close>

subsection \<open>Rendering\<close>

lemma render_cue_frame:
  "attempts (render_cue s ic) = attempts s"
  "timer (render_cue s ic) = timer s"
  "renders (render_cue s ic) = renders s"
  "player (render_cue s ic) = player s"
  "scrollTop (render_cue s ic) = scrollTop s"
  "unhandled (render_cue s ic) = unhandled s"
  by (simp_all add: render_cue_def Let_def)

lemma foldl_render_cue_frame:
  "attempts (foldl render_cue s ics) = attempts s \<and>
   timer (foldl render_cue s ics) = timer s \<and>
   renders (foldl render_cue s ics) = renders s \<and>
   player (foldl render_cue s ics) = player s \<and>
   scrollTop (foldl render_cue s ics) = scrollTop s \<and>
   unhandled (foldl render_cue s ics) = unhandled s"
  by (induction ics arbitrary: s) (simp_all add: render_cue_frame)

lemma foldl_render_cue_lines:
  "lines (foldl render_cue s (enumerate n cs)) =
   lines s @ map (\<lambda>ic. make_line (snd ic) (fst ic)) (enumerate n cs)"
  by (induction cs arbitrary: s n) (simp_all add: render_cue_def Let_def)

lemma foldl_render_cue_transcript:
  "transcript (foldl render_cue s (enumerate n cs)) =
   transcript s @ map Div [length (lines s) ..< length (lines s) + length cs]"
proof (induction cs arbitrary: s n)
  case Nil
  show ?case by simp
next
  case (Cons c cs)
  have "length (lines s) < length (lines s) + length (c # cs)" by simp
  then have "[length (lines s) ..< length (lines s) + length (c # cs)] =
        length (lines s) # [Suc (length (lines s)) ..< length (lines s) + length (c # cs)]"
    by (rule upt_conv_Cons)
  moreover have "length (lines s) + length (c # cs) = Suc (length (lines s)) + length cs" by simp
  ultimately have u: "[length (lines s) ..< length (lines s) + length (c # cs)] =
        length (lines s) # [Suc (length (lines s)) ..< Suc (length (lines s)) + length cs]"
    by (simp only:)
  have l: "length (lines (render_cue s (n, c))) = Suc (length (lines s))"
    and t: "transcript (render_cue s (n, c)) = transcript s @ [Div (length (lines s))]"
    by (simp_all add: render_cue_def Let_def)
  have "transcript (foldl render_cue s (enumerate n (c # cs))) =
        transcript (foldl render_cue (render_cue s (n, c)) (enumerate (Suc n) cs))" by simp
  also have "\<dots> = (transcript s @ [Div (length (lines s))]) @
        map Div [Suc (length (lines s)) ..< Suc (length (lines s)) + length cs]"
    by (simp only: Cons.IH l t)
  also have "\<dots> = transcript s @ map Div [length (lines s) ..< length (lines s) + length (c # cs)]"
    by (simp only: u) simp
  finally show ?case .
qed

lemma renderFromCues_frame:
  "attempts (renderFromCues tc s) = attempts s"
  "timer (renderFromCues tc s) = timer s"
  "renders (renderFromCues tc s) = Suc (renders s)"
  "player (renderFromCues tc s) = player s"
  "scrollTop (renderFromCues tc s) = scrollTop s"
  "unhandled (renderFromCues tc s) = unhandled s"
  by (simp_all add: renderFromCues_def Let_def foldl_render_cue_frame)

lemma renderFromCues_lines:
  "lines (renderFromCues tc s) = map (\<lambda>ic. make_line (snd ic) (fst ic)) (enumerate 0 (cues_of tc))"
  by (simp add: renderFromCues_def Let_def foldl_render_cue_lines)

lemma renderFromCues_transcript:
  "transcript (renderFromCues tc s) =
     (if cues_of tc = [] then [Para LoadingPlaceholder] else map Div [0 ..< length (cues_of tc)])"
  by (simp add: renderFromCues_def Let_def foldl_render_cue_transcript)

lemma renderFromCues_nth:
  assumes "i < length cs"
  shows "lines (renderFromCues (Some cs) s) ! i = make_line (cs ! i) i"
  using assms by (simp add: renderFromCues_lines cues_of_def nth_enumerate_eq)

subsection \<open>What the handlers leave alone\<close>

lemma scroll_into_view_frame:
  "lines (scroll_into_view v i s) = lines s"
  "transcript (scroll_into_view v i s) = transcript s"
  "cueToLine (scroll_into_view v i s) = cueToLine s"
  "attempts (scroll_into_view v i s) = attempts s"
  "timer (scroll_into_view v i s) = timer s"
  "renders (scroll_into_view v i s) = renders s"
  "player (scroll_into_view v i s) = player s"
  "unhandled (scroll_into_view v i s) = unhandled s"
  by (simp_all add: scroll_into_view_def set_scrollTop_def Let_def)

lemma setActiveCue_frame:
  "transcript (setActiveCue v c s) = transcript s"
  "cueToLine (setActiveCue v c s) = cueToLine s"
  "attempts (setActiveCue v c s) = attempts s"
  "timer (setActiveCue v c s) = timer s"
  "renders (setActiveCue v c s) = renders s"
  "player (setActiveCue v c s) = player s"
  "unhandled (setActiveCue v c s) = unhandled s"
  "length (lines (setActiveCue v c s)) = length (lines s)"
  by (simp_all add: setActiveCue_def clearActive_def Let_def scroll_into_view_frame
      split: option.splits)

lemma jump_frame:
  "transcript (jump p c s) = transcript s"
  "lines (jump p c s) = lines s"
  "cueToLine (jump p c s) = cueToLine s"
  "attempts (jump p c s) = attempts s"
  "timer (jump p c s) = timer s"
  "renders (jump p c s) = renders s"
  "scrollTop (jump p c s) = scrollTop s"
  by (simp_all add: jump_def Let_def)

lemma line_keydown_frame:
  "transcript (line_keydown k p c s) = transcript s"
  "lines (line_keydown k p c s) = lines s"
  "cueToLine (line_keydown k p c s) = cueToLine s"
  "attempts (line_keydown k p c s) = attempts s"
  "timer (line_keydown k p c s) = timer s"
  "renders (line_keydown k p c s) = renders s"
  "scrollTop (line_keydown k p c s) = scrollTop s"
  by (simp_all add: line_keydown_def jump_frame)

lemma button_click_frame:
  "transcript (button_click a s) = transcript s"
  "lines (button_click a s) = lines s"
  "cueToLine (button_click a s) = cueToLine s"
  "attempts (button_click a s) = attempts s"
  "timer (button_click a s) = timer s"
  "renders (button_click a s) = renders s"
  "scrollTop (button_click a s) = scrollTop s"
  "unhandled (button_click a s) = unhandled s"
  by (simp_all add: button_click_def Let_def)

text \<open>Only a tick of a set timer renders.\<close>

lemma step_no_render:
  assumes "timer s = None \<or> (\<forall>tc. e \<noteq> TimerTick tc)"
  shows "renders (step s e) = renders s \<and> transcript (step s e) = transcript s \<and>
         timer (step s e) = timer s \<and> attempts (step s e) = attempts s"
  using assms
  by (cases e)
     (auto simp: cuechange_def setActiveCue_frame jump_frame line_keydown_frame button_click_frame)

lemma run_Nil: "run s [] = s"
  by (simp add: run_def)

lemma run_Cons: "run s (e # evs) = run (step s e) evs"
  by (simp add: run_def)

lemma run_append: "run s (xs @ ys) = run (run s xs) ys"
  by (simp add: run_def)

lemma run_timer_cleared:
  "timer s = None \<Longrightarrow>
   renders (run s evs) = renders s \<and> transcript (run s evs) = transcript s \<and>
   timer (run s evs) = None \<and> attempts (run s evs) = attempts s"
proof (induction evs arbitrary: s)
  case Nil
  then show ?case by (simp add: run_Nil)
next
  case (Cons e evs)
  from Cons.prems have st: "renders (step s e) = renders s \<and> transcript (step s e) = transcript s \<and>
         timer (step s e) = timer s \<and> attempts (step s e) = attempts s"
    by (intro step_no_render) simp
  with Cons.prems have "timer (step s e) = None" by simp
  from Cons.IH[OF this] st Cons.prems show ?case by (simp add: run_Cons)
qed

subsection \<open>The polling timer\<close>

lemma tick_quiet:
  "\<not> has_cues tc \<Longrightarrow> Suc (attempts s) < maxAttempts \<Longrightarrow>
   tick tc s = s\<lparr>attempts := Suc (attempts s)\<rparr>"
  by (simp add: tick_def Let_def)

lemma tick_stop:
  "has_cues tc \<or> maxAttempts \<le> Suc (attempts s) \<Longrightarrow>
   tick tc s = renderFromCues tc (s\<lparr>attempts := Suc (attempts s), timer := None\<rparr>)"
  by (auto simp: tick_def Let_def)

lemma ticks_of_other: "(\<forall>tc. e \<noteq> TimerTick tc) \<Longrightarrow> ticks_of (e # evs) = ticks_of evs"
  by (cases e) simp_all

lemma poll_general:
  assumes "timer s = Some p" and "attempts s < maxAttempts"
  shows "let obs = ticks_of evs;
             n = min (maxAttempts - attempts s) (Suc (length (takeWhile (\<lambda>tc. \<not> has_cues tc) obs)));
             s' = run s evs
         in (length obs < n \<longrightarrow>
               timer s' = Some p \<and> renders s' = renders s \<and> attempts s' = attempts s + length obs) \<and>
            (n \<le> length obs \<longrightarrow>
               timer s' = None \<and> renders s' = Suc (renders s) \<and> attempts s' = attempts s + n)"
  using assms
proof (induction evs arbitrary: s)
  case Nil
  then show ?case by (simp add: run_Nil Let_def)
next
  case (Cons e evs)
  show ?case
  proof (cases "\<exists>tc. e = TimerTick tc")
    case False
    then have other: "\<forall>tc. e \<noteq> TimerTick tc" by simp
    then have fr: "renders (step s e) = renders s \<and> transcript (step s e) = transcript s \<and>
         timer (step s e) = timer s \<and> attempts (step s e) = attempts s"
      by (intro step_no_render) simp
    with Cons.prems have "timer (step s e) = Some p" "attempts (step s e) < maxAttempts"
      by simp_all
    from Cons.IH[OF this] fr show ?thesis
      by (simp add: run_Cons ticks_of_other[OF other] Let_def)
  next
    case True
    then obtain tc where e: "e = TimerTick tc" by blast
    have r: "run s (e # evs) = run (tick tc s) evs"
      using Cons.prems(1) by (simp add: e run_Cons)
    have o: "ticks_of (e # evs) = tc # ticks_of evs" by (simp add: e)
    show ?thesis
    proof (cases "has_cues tc \<or> maxAttempts \<le> Suc (attempts s)")
      case True
      then have t: "tick tc s = renderFromCues tc (s\<lparr>attempts := Suc (attempts s), timer := None\<rparr>)"
        by (rule tick_stop)
      have f: "timer (tick tc s) = None" "renders (tick tc s) = Suc (renders s)"
        "attempts (tick tc s) = Suc (attempts s)"
        by (simp_all add: t renderFromCues_frame)
      have n: "min (maxAttempts - attempts s)
                 (Suc (length (takeWhile (\<lambda>tc. \<not> has_cues tc) (tc # ticks_of evs)))) = 1"
        using True Cons.prems(2) by auto
      from run_timer_cleared[OF f(1), of evs] f show ?thesis
        by (simp only: Let_def o n r) simp
    next
      case False
      then have q: "\<not> has_cues tc" and a: "Suc (attempts s) < maxAttempts" by auto
      have t: "tick tc s = s\<lparr>attempts := Suc (attempts s)\<rparr>"
        using q a by (rule tick_quiet)
      have "timer (tick tc s) = Some p" "attempts (tick tc s) < maxAttempts"
        using Cons.prems a by (simp_all add: t)
      note ih = Cons.IH[OF this]
      have d: "maxAttempts - attempts s = Suc (maxAttempts - attempts (tick tc s))"
        using a by (simp add: t)
      have n: "min (maxAttempts - attempts s)
                 (Suc (length (takeWhile (\<lambda>tc. \<not> has_cues tc) (tc # ticks_of evs)))) =
               Suc (min (maxAttempts - attempts (tick tc s))
                 (Suc (length (takeWhile (\<lambda>tc. \<not> has_cues tc) (ticks_of evs)))))"
        using q by (simp only: d) simp
      have f: "renders (tick tc s) = renders s" "attempts (tick tc s) = Suc (attempts s)"
        by (simp_all add: t)
      from ih show ?thesis
        by (simp only: Let_def o n r f) simp
    qed
  qed
qed

lemma setupCard_Running:
  assumes "setupCard c = Running s0"
  shows "timer s0 = Some 150" and "attempts s0 = 0" and "renders s0 = 0" and "lines s0 = []"
    and "unhandled s0 = 0"
  using assms by (auto simp: setupCard_def split: option.splits if_splits)

lemma stop_tick_bounds: "1 \<le> stop_tick obs \<and> stop_tick obs \<le> 20"
  by (simp add: stop_tick_def maxAttempts_def)

text \<open>
  Claim C3. On a card with a caption track the timer is set with a period of 150 ms. Among
  any events, let \<open>n\<close> be the number of the first tick that sees cues, and 20 if none of the
  first 20 does. Before tick \<open>n\<close> the timer is still set with that period, nothing has been
  rendered and \<open>attempts\<close> counts the ticks. From tick \<open>n\<close> on the timer is cleared, exactly
  one render pass has run and \<open>attempts\<close> stays at \<open>n\<close>, which is at most 20.
\<close>

theorem polling_renders_once:
  "setupCard c = Running s0 \<longrightarrow>
     (let obs = ticks_of evs; n = stop_tick obs; s = run s0 evs
      in 1 \<le> n \<and> n \<le> 20 \<and> maxAttempts = 20 \<and>
         (length obs < n \<longrightarrow> timer s = Some 150 \<and> renders s = 0 \<and> attempts s = length obs) \<and>
         (n \<le> length obs \<longrightarrow> timer s = None \<and> renders s = 1 \<and> attempts s = n))"
proof
  assume a: "setupCard c = Running s0"
  have t: "timer s0 = Some 150" and at: "attempts s0 < maxAttempts"
    using setupCard_Running[OF a] by (simp_all add: maxAttempts_def)
  have n: "min (maxAttempts - attempts s0)
             (Suc (length (takeWhile (\<lambda>tc. \<not> has_cues tc) (ticks_of evs)))) = stop_tick (ticks_of evs)"
    using setupCard_Running(2)[OF a] by (simp add: stop_tick_def)
  note p = poll_general[OF t at, of evs, unfolded Let_def n]
  from p stop_tick_bounds[of "ticks_of evs"]
  show "let obs = ticks_of evs; n = stop_tick obs; s = run s0 evs
      in 1 \<le> n \<and> n \<le> 20 \<and> maxAttempts = 20 \<and>
         (length obs < n \<longrightarrow> timer s = Some 150 \<and> renders s = 0 \<and> attempts s = length obs) \<and>
         (n \<le> length obs \<longrightarrow> timer s = None \<and> renders s = 1 \<and> attempts s = n)"
    by (simp add: Let_def setupCard_Running(2,3)[OF a] maxAttempts_def)
qed

theorem polling_renders_once_witness:
  "setupCard sample_card = Running sample_state \<and>
   timer (run sample_state
      [TimerTick None, TimerTick (Some [hello, world]), CueChange (Some [world]) quiet_view,
       TimerTick (Some [hello, world])]) = None \<and>
   renders (run sample_state
      [TimerTick None, TimerTick (Some [hello, world]), CueChange (Some [world]) quiet_view,
       TimerTick (Some [hello, world])]) = 1 \<and>
   attempts (run sample_state
      [TimerTick None, TimerTick (Some [hello, world]), CueChange (Some [world]) quiet_view,
       TimerTick (Some [hello, world])]) = 2"
proof -
  have s: "stop_tick [None, Some [hello, world], Some [hello, world]] = 2"
    by (simp add: stop_tick_def has_cues_def maxAttempts_def)
  from polling_renders_once [of sample_card sample_state
      "[TimerTick None, TimerTick (Some [hello, world]), CueChange (Some [world]) quiet_view,
       TimerTick (Some [hello, world])]"] setup_sample
  show ?thesis by (simp add: Let_def s)
qed

subsection \<open>Twenty ticks without cues\<close>

lemma not_has_cues: "\<not> has_cues tc \<Longrightarrow> cues_of tc = []"
  by (cases tc) (simp_all add: has_cues_def cues_of_def)

lemma quiet_ticks:
  "timer s = Some p \<Longrightarrow> attempts s + length obs < maxAttempts \<Longrightarrow>
   \<forall>tc\<in>set obs. \<not> has_cues tc \<Longrightarrow>
   run s (map TimerTick obs) = s\<lparr>attempts := attempts s + length obs\<rparr>"
proof (induction obs arbitrary: s)
  case Nil
  then show ?case by (simp add: run_Nil)
next
  case (Cons tc obs)
  have t: "tick tc s = s\<lparr>attempts := Suc (attempts s)\<rparr>"
    using Cons.prems by (intro tick_quiet) simp_all
  have "run (tick tc s) (map TimerTick obs) =
        (tick tc s)\<lparr>attempts := attempts (tick tc s) + length obs\<rparr>"
    using Cons.prems by (intro Cons.IH) (simp_all add: t)
  then show ?case using Cons.prems(1) by (simp add: run_Cons t)
qed

lemma exhausted_ticks:
  assumes "timer s = Some p" and "attempts s = 0" and "length obs = 20"
    and "\<forall>tc\<in>set obs. \<not> has_cues tc"
  shows "timer (run s (map TimerTick obs)) = None"
    and "transcript (run s (map TimerTick obs)) = [Para LoadingPlaceholder]"
    and "lines (run s (map TimerTick obs)) = []"
    and "renders (run s (map TimerTick obs)) = Suc (renders s)"
proof -
  from assms(3) have ne: "obs \<noteq> []" by auto
  define xs where "xs = butlast obs"
  define x where "x = last obs"
  have obs: "obs = xs @ [x]" using ne by (simp add: xs_def x_def)
  have lx: "length xs = 19" using assms(3) by (simp add: xs_def)
  have q: "\<forall>tc\<in>set xs. \<not> has_cues tc" and qx: "\<not> has_cues x"
    using assms(4) by (simp_all add: obs)
  have r1: "run s (map TimerTick xs) = s\<lparr>attempts := attempts s + length xs\<rparr>"
    using assms(1) q by (intro quiet_ticks) (simp_all add: assms(2) lx maxAttempts_def)
  let ?s1 = "s\<lparr>attempts := 19\<rparr>"
  have r: "run s (map TimerTick obs) = tick x ?s1"
    using assms(1) by (simp add: obs run_append r1 run_Cons run_Nil assms(2) lx)
  have t: "tick x ?s1 = renderFromCues x (?s1\<lparr>attempts := Suc (attempts ?s1), timer := None\<rparr>)"
    by (intro tick_stop) (simp add: maxAttempts_def)
  show "timer (run s (map TimerTick obs)) = None"
    by (simp add: r t renderFromCues_frame)
  show "transcript (run s (map TimerTick obs)) = [Para LoadingPlaceholder]"
    by (simp add: r t renderFromCues_transcript not_has_cues[OF qx])
  show "lines (run s (map TimerTick obs)) = []"
    by (simp add: r t renderFromCues_lines not_has_cues[OF qx])
  show "renders (run s (map TimerTick obs)) = Suc (renders s)"
    by (simp add: r t renderFromCues_frame)
qed

text \<open>
  Claim C10. The cue-change handler never renders: it leaves the count of render passes and
  the children of the container as they are. A render pass happens only in a tick of a
  timer that is still set. So once the timer is cleared the container keeps its children
  whatever happens; in particular, after 20 ticks that saw no cues the timer is cleared and
  the container shows the placeholder after any further events, ticks with cues and
  cue changes included.
\<close>

theorem render_only_by_timer:
  "renders (cuechange v ac s) = renders s \<and> transcript (cuechange v ac s) = transcript s \<and>
   (renders (step s e) \<noteq> renders s \<longrightarrow> (\<exists>tc. e = TimerTick tc) \<and> timer s \<noteq> None) \<and>
   (timer s = None \<longrightarrow>
      transcript (run s evs) = transcript s \<and> renders (run s evs) = renders s) \<and>
   (setupCard c = Running s0 \<and> length obs = 20 \<and> (\<forall>tc\<in>set obs. \<not> has_cues tc) \<longrightarrow>
      timer (run s0 (map TimerTick obs)) = None \<and>
      transcript (run s0 (map TimerTick obs)) = [Para LoadingPlaceholder] \<and>
      transcript (run s0 (map TimerTick obs @ evs)) = [Para LoadingPlaceholder] \<and>
      renders (run s0 (map TimerTick obs @ evs)) = 1)"
proof -
  have a: "renders (cuechange v ac s) = renders s \<and> transcript (cuechange v ac s) = transcript s"
    by (simp add: cuechange_def setActiveCue_frame)
  have b: "renders (step s e) \<noteq> renders s \<longrightarrow> (\<exists>tc. e = TimerTick tc) \<and> timer s \<noteq> None"
  proof (cases "timer s = None \<or> (\<forall>tc. e \<noteq> TimerTick tc)")
    case True
    from step_no_render[OF True] show ?thesis by simp
  next
    case False
    then show ?thesis by simp
  qed
  have c: "timer s = None \<longrightarrow>
      transcript (run s evs) = transcript s \<and> renders (run s evs) = renders s"
    using run_timer_cleared[of s evs] by blast
  have d: "timer (run s0 (map TimerTick obs)) = None \<and>
      transcript (run s0 (map TimerTick obs)) = [Para LoadingPlaceholder] \<and>
      transcript (run s0 (map TimerTick obs @ evs)) = [Para LoadingPlaceholder] \<and>
      renders (run s0 (map TimerTick obs @ evs)) = 1"
    if h: "setupCard c = Running s0" "length obs = 20" "\<forall>tc\<in>set obs. \<not> has_cues tc"
  proof -
    note i = setupCard_Running[OF h(1)]
    note x = exhausted_ticks[OF i(1) i(2) h(2) h(3)]
    from run_timer_cleared[OF x(1), of evs] x i(3) show ?thesis
      by (simp add: run_append)
  qed
  from a b c d show ?thesis by blast
qed

theorem render_only_by_timer_witness:
  "timer (run sample_state (map TimerTick (replicate 20 None))) = None \<and>
   setupCard sample_card = Running sample_state \<and>
   length (replicate 20 (None :: cue list option)) = 20 \<and>
   transcript (run sample_state (map TimerTick (replicate 20 None) @
      [TimerTick (Some [hello, world]), CueChange (Some [world]) sample_view])) =
     [Para LoadingPlaceholder] \<and>
   transcript (run (run sample_state (map TimerTick (replicate 20 None)))
      [TimerTick (Some [hello, world]), CueChange (Some [world]) sample_view]) =
     [Para LoadingPlaceholder]"
proof -
  have q: "\<forall>tc\<in>set (replicate 20 (None :: cue list option)). \<not> has_cues tc"
    by (simp add: has_cues_def)
  have l: "length (replicate 20 (None :: cue list option)) = 20" by simp
  note t = render_only_by_timer [where c = sample_card and ?s0.0 = sample_state
      and obs = "replicate 20 None"
      and evs = "[TimerTick (Some [hello, world]), CueChange (Some [world]) sample_view]"]
  from t setup_sample q l
  have x: "timer (run sample_state (map TimerTick (replicate 20 None))) = None"
    "transcript (run sample_state (map TimerTick (replicate 20 None))) = [Para LoadingPlaceholder]"
    "transcript (run sample_state (map TimerTick (replicate 20 None) @
      [TimerTick (Some [hello, world]), CueChange (Some [world]) sample_view])) =
     [Para LoadingPlaceholder]"
    by blast+
  from render_only_by_timer [where s = "run sample_state (map TimerTick (replicate 20 None))"
      and evs = "[TimerTick (Some [hello, world]), CueChange (Some [world]) sample_view]"] x(1)
  have "transcript (run (run sample_state (map TimerTick (replicate 20 None)))
      [TimerTick (Some [hello, world]), CueChange (Some [world]) sample_view]) =
      transcript (run sample_state (map TimerTick (replicate 20 None)))"
    by blast
  with x setup_sample l show ?thesis by simp
qed

subsection \<open>The active marking\<close>

lemma filter_active_update:
  "\<forall>l\<in>set xs. \<not> active l \<Longrightarrow> length (filter active (xs[i := y])) \<le> 1"
proof (induction xs arbitrary: i)
  case Nil
  show ?case by simp
next
  case (Cons x xs)
  show ?case
  proof (cases i)
    case 0
    have "filter active xs = []" using Cons.prems by (simp add: filter_empty_conv)
    then show ?thesis by (simp add: 0)
  next
    case (Suc j)
    have "length (filter active (xs[j := y])) \<le> 1" using Cons.prems by (intro Cons.IH) simp
    then show ?thesis using Cons.prems by (simp add: Suc)
  qed
qed

lemma lines_clearActive: "\<forall>l\<in>set (lines (clearActive s)). \<not> active l"
  by (simp add: clearActive_def)

lemma active_count_clearActive: "active_count (clearActive s) = 0"
  by (simp add: active_count_def clearActive_def filter_empty_conv)

lemma active_count_setActiveCue:
  "active_count s \<le> 1 \<Longrightarrow> active_count (setActiveCue v c s) \<le> 1"
proof (cases c)
  case None
  assume "active_count s \<le> 1"
  then show ?thesis by (simp add: None setActiveCue_def)
next
  case (Some k)
  show ?thesis
  proof (cases "cueToLine (clearActive s) k")
    case None
    then show ?thesis
      using active_count_clearActive[of s] by (simp add: Some setActiveCue_def Let_def)
  next
    case (Some i)
    have "length (filter active ((lines (clearActive s))[i := (lines (clearActive s) ! i)\<lparr>active := True\<rparr>])) \<le> 1"
      using lines_clearActive by (rule filter_active_update)
    then show ?thesis
      by (simp add: \<open>c = Some k\<close> Some setActiveCue_def Let_def active_count_def
          scroll_into_view_frame)
  qed
qed

lemma active_make_line: "\<not> active (make_line c i)"
  by (simp add: make_line_def)

lemma active_count_renderFromCues: "active_count (renderFromCues tc s) = 0"
  by (simp add: active_count_def renderFromCues_lines filter_empty_conv active_make_line)

lemma active_count_tick: "active_count s \<le> 1 \<Longrightarrow> active_count (tick tc s) \<le> 1"
  by (simp add: tick_def Let_def active_count_renderFromCues) (simp add: active_count_def)

lemma active_count_step: "active_count s \<le> 1 \<Longrightarrow> active_count (step s e) \<le> 1"
proof (cases e)
  case (TimerTick tc)
  assume a: "active_count s \<le> 1"
  show ?thesis
  proof (cases "timer s = None")
    case True
    with a show ?thesis by (simp add: TimerTick)
  next
    case False
    from False have "step s e = tick tc s" by (auto simp: TimerTick)
    with active_count_tick[OF a, of tc] show ?thesis by simp
  qed
next
  case (CueChange ac v)
  assume a: "active_count s \<le> 1"
  from active_count_setActiveCue[OF a] show ?thesis by (simp add: CueChange cuechange_def)
next
  case (LineClick i p)
  assume "active_count s \<le> 1"
  then show ?thesis by (simp add: LineClick active_count_def jump_frame)
next
  case (LineKeyDown i k p)
  assume "active_count s \<le> 1"
  then show ?thesis by (simp add: LineKeyDown active_count_def line_keydown_frame)
next
  case (ButtonClick a)
  assume "active_count s \<le> 1"
  then show ?thesis by (simp add: ButtonClick active_count_def button_click_frame)
qed

lemma active_count_run: "active_count s \<le> 1 \<Longrightarrow> active_count (run s evs) \<le> 1"
proof (induction evs arbitrary: s)
  case Nil
  then show ?case by (simp add: run_Nil)
next
  case (Cons e evs)
  from Cons.prems have "active_count (step s e) \<le> 1" by (rule active_count_step)
  then have "active_count (run (step s e) evs) \<le> 1" by (rule Cons.IH)
  then show ?case by (simp add: run_Cons)
qed

text \<open>
  Claim C4. On a card that runs, after every sequence of events (timer ticks with their
  render passes, cue changes, clicks, key presses) at most one rendered line carries the
  active marking; and a render pass leaves none.
\<close>

theorem at_most_one_active:
  "(setupCard c = Running s0 \<longrightarrow> active_count (run s0 evs) \<le> 1) \<and>
   active_count (renderFromCues tc s) = 0"
proof -
  have "active_count (run s0 evs) \<le> 1" if "setupCard c = Running s0"
    using setupCard_Running(4)[OF that] by (intro active_count_run) (simp add: active_count_def)
  then show ?thesis by (simp add: active_count_renderFromCues)
qed

theorem at_most_one_active_witness:
  "setupCard sample_card = Running sample_state \<and>
   active_count (run sample_state
     [TimerTick (Some [hello, world]), CueChange (Some [hello]) sample_view,
      CueChange (Some [world, hello]) sample_view]) \<le> 1"
  using at_most_one_active [where c = sample_card and ?s0.0 = sample_state
      and evs = "[TimerTick (Some [hello, world]), CueChange (Some [hello]) sample_view,
      CueChange (Some [world, hello]) sample_view]"] setup_sample
  by blast

subsection \<open>The sample card\<close>

lemma rendered_state_eq:
  "rendered_state = renderFromCues (Some [hello, world]) (sample_state\<lparr>attempts := 1, timer := None\<rparr>)"
  by (simp add: rendered_state_def run_def tick_def has_cues_def sample_state_def Let_def)

lemma rendered_lines: "lines rendered_state = [make_line hello 0, make_line world 1]"
  by (simp add: rendered_state_eq renderFromCues_lines cues_of_def enumerate_simps)

lemma rendered_lookup:
  "cueToLine rendered_state hello = Some 0" "cueToLine rendered_state world = Some 1"
  by (simp_all add: rendered_state_eq renderFromCues_def cues_of_def render_cue_def Let_def
      hello_def world_def)

lemma rendered_scrollTop: "scrollTop rendered_state = 50"
  by (simp add: rendered_state_eq renderFromCues_frame sample_state_def)

lemma rendered_player: "player rendered_state = sample_audio"
  by (simp add: rendered_state_eq renderFromCues_frame sample_state_def)

lemma world_marked:
  "lines (cuechange v (Some [world]) rendered_state) =
     [make_line hello 0, (make_line world 1)\<lparr>active := True\<rparr>]"
  by (simp add: cuechange_def first_active_def setActiveCue_def clearActive_def Let_def
      rendered_lookup rendered_lines scroll_into_view_frame make_line_def)

subsection \<open>A cue change without active cues\<close>

lemma setActiveCue_None: "setActiveCue v None s = s"
  by (simp add: setActiveCue_def)

text \<open>
  Claim C1, as the code has it. When a cue change supplies no active cue (no list, or an
  empty one), the handler returns before it clears anything: the state is as it was, so
  every line keeps its marking, a marked line stays marked, and the scroll offset is not
  touched.
\<close>

theorem cuechange_no_active_cue:
  "cuechange v None s = s \<and> cuechange v (Some []) s = s \<and>
   map active (lines (cuechange v (Some []) s)) = map active (lines s) \<and>
   scrollTop (cuechange v (Some []) s) = scrollTop s"
  by (simp add: cuechange_def first_active_def setActiveCue_None)

theorem cuechange_no_active_cue_witness:
  "map active (lines (cuechange sample_view (Some [])
      (cuechange sample_view (Some [world]) rendered_state))) = [False, True] \<and>
   scrollTop (cuechange sample_view (Some [])
      (cuechange sample_view (Some [world]) rendered_state)) =
   scrollTop (cuechange sample_view (Some [world]) rendered_state)"
  using cuechange_no_active_cue [of sample_view "cuechange sample_view (Some [world]) rendered_state"]
  by (simp add: world_marked make_line_def)

text \<open>The claim as written fails: the line marked for \<open>World\<close> is still marked after a cue
  change with no active cue.\<close>

theorem cuechange_no_active_cue_counterexample:
  "active_count (cuechange sample_view (Some [])
      (cuechange sample_view (Some [world]) rendered_state)) = 1"
  by (simp add: cuechange_def first_active_def setActiveCue_None active_count_def
      world_marked[unfolded cuechange_def first_active_def, simplified] make_line_def)

subsection \<open>Rendering depends on the cues only\<close>

lemma foldl_render_cue_agree:
  "transcript s = transcript t \<Longrightarrow> lines s = lines t \<Longrightarrow> cueToLine s = cueToLine t \<Longrightarrow>
   transcript (foldl render_cue s ics) = transcript (foldl render_cue t ics) \<and>
   lines (foldl render_cue s ics) = lines (foldl render_cue t ics) \<and>
   cueToLine (foldl render_cue s ics) = cueToLine (foldl render_cue t ics)"
proof (induction ics arbitrary: s t)
  case Nil
  then show ?case by simp
next
  case (Cons ic ics)
  have "transcript (render_cue s ic) = transcript (render_cue t ic)"
    "lines (render_cue s ic) = lines (render_cue t ic)"
    "cueToLine (render_cue s ic) = cueToLine (render_cue t ic)"
    using Cons.prems by (simp_all add: render_cue_def Let_def)
  from Cons.IH[OF this] show ?case by simp
qed

lemma renderFromCues_agree:
  "transcript (renderFromCues tc s) = transcript (renderFromCues tc t) \<and>
   lines (renderFromCues tc s) = lines (renderFromCues tc t) \<and>
   cueToLine (renderFromCues tc s) = cueToLine (renderFromCues tc t)"
proof (cases "cues_of tc = []")
  case True
  then show ?thesis by (simp add: renderFromCues_def Let_def)
next
  case False
  let ?r = "\<lambda>u. u\<lparr>transcript := [], lines := [], cueToLine := Map.empty, renders := Suc (renders u)\<rparr>"
  have "transcript (foldl render_cue (?r s) (enumerate 0 (cues_of tc))) =
          transcript (foldl render_cue (?r t) (enumerate 0 (cues_of tc))) \<and>
        lines (foldl render_cue (?r s) (enumerate 0 (cues_of tc))) =
          lines (foldl render_cue (?r t) (enumerate 0 (cues_of tc))) \<and>
        cueToLine (foldl render_cue (?r s) (enumerate 0 (cues_of tc))) =
          cueToLine (foldl render_cue (?r t) (enumerate 0 (cues_of tc)))"
    by (rule foldl_render_cue_agree) simp_all
  with False show ?thesis by (simp add: renderFromCues_def Let_def)
qed

text \<open>
  Claim C5. A render pass over a non-empty cue list produces exactly one line per cue, in
  cue order: line \<open>i\<close> is the \<open>i\<close>-th child of the container, shows the formatted start time
  and the text of cue \<open>i\<close> as they are, and jumps to cue \<open>i\<close>. The lines, the children and
  the lookup do not depend on the state before the pass, so rendering the same cue list
  again, or from another state, yields the same lines.
\<close>

theorem render_one_line_per_cue:
  "cs \<noteq> [] \<longrightarrow>
     (let s' = renderFromCues (Some cs) s
      in length (lines s') = length cs \<and>
         transcript s' = map Div [0 ..< length cs] \<and>
         (\<forall>i<length cs.
            lines s' ! i = make_line (cs ! i) i \<and>
            time_text (lines s' ! i) = formatTime (Some (startTime (cs ! i))) \<and>
            line_text (lines s' ! i) = cue_text (cs ! i) \<and>
            line_cue (lines s' ! i) = cs ! i) \<and>
         lines (renderFromCues (Some cs) s') = lines s' \<and>
         transcript (renderFromCues (Some cs) s') = transcript s' \<and>
         cueToLine (renderFromCues (Some cs) s') = cueToLine s' \<and>
         lines (renderFromCues (Some cs) t) = lines s' \<and>
         transcript (renderFromCues (Some cs) t) = transcript s' \<and>
         cueToLine (renderFromCues (Some cs) t) = cueToLine s')"
proof
  assume ne: "cs \<noteq> []"
  let ?s' = "renderFromCues (Some cs) s"
  have a: "length (lines ?s') = length cs"
    by (simp add: renderFromCues_lines cues_of_def)
  have b: "transcript ?s' = map Div [0 ..< length cs]"
    using ne by (simp add: renderFromCues_transcript cues_of_def)
  have c: "\<forall>i<length cs.
            lines ?s' ! i = make_line (cs ! i) i \<and>
            time_text (lines ?s' ! i) = formatTime (Some (startTime (cs ! i))) \<and>
            line_text (lines ?s' ! i) = cue_text (cs ! i) \<and>
            line_cue (lines ?s' ! i) = cs ! i"
    by (simp add: renderFromCues_nth make_line_def)
  note d = renderFromCues_agree[of "Some cs" ?s' s] renderFromCues_agree[of "Some cs" t s]
  from a b c d show "let s' = renderFromCues (Some cs) s
      in length (lines s') = length cs \<and>
         transcript s' = map Div [0 ..< length cs] \<and>
         (\<forall>i<length cs.
            lines s' ! i = make_line (cs ! i) i \<and>
            time_text (lines s' ! i) = formatTime (Some (startTime (cs ! i))) \<and>
            line_text (lines s' ! i) = cue_text (cs ! i) \<and>
            line_cue (lines s' ! i) = cs ! i) \<and>
         lines (renderFromCues (Some cs) s') = lines s' \<and>
         transcript (renderFromCues (Some cs) s') = transcript s' \<and>
         cueToLine (renderFromCues (Some cs) s') = cueToLine s' \<and>
         lines (renderFromCues (Some cs) t) = lines s' \<and>
         transcript (renderFromCues (Some cs) t) = transcript s' \<and>
         cueToLine (renderFromCues (Some cs) t) = cueToLine s'"
    by (simp only: Let_def)
qed

theorem render_one_line_per_cue_witness:
  "[hello, world] \<noteq> [] \<and>
   length (lines (renderFromCues (Some [hello, world]) sample_state)) = 2 \<and>
   transcript (renderFromCues (Some [hello, world]) sample_state) = [Div 0, Div 1] \<and>
   time_text (lines (renderFromCues (Some [hello, world]) sample_state) ! 1) = ''00:05'' \<and>
   line_text (lines (renderFromCues (Some [hello, world]) sample_state) ! 1) = ''World'' \<and>
   lines (renderFromCues (Some [hello, world]) rendered_state) =
     lines (renderFromCues (Some [hello, world]) sample_state)"
proof -
  have ne: "[hello, world] \<noteq> []" by simp
  have f: "formatTime (Some (startTime world)) = ''00:05''"
    unfolding world_def by code_simp
  have u: "[0 ..< length [hello, world]] = [0, 1]" by (simp add: upt_rec)
  note t = render_one_line_per_cue [of "[hello, world]" sample_state rendered_state,
      unfolded Let_def, rule_format, OF ne]
  have i: "(1::nat) < length [hello, world]" by simp
  from t have "length (lines (renderFromCues (Some [hello, world]) sample_state)) = 2"
    by simp
  moreover from t u have "transcript (renderFromCues (Some [hello, world]) sample_state) = [Div 0, Div 1]"
    by simp
  moreover from t i have "time_text (lines (renderFromCues (Some [hello, world]) sample_state) ! 1) =
      formatTime (Some (startTime ([hello, world] ! 1)))"
    by blast
  moreover from t i have "line_text (lines (renderFromCues (Some [hello, world]) sample_state) ! 1) =
      cue_text ([hello, world] ! 1)"
    by blast
  moreover from t have "lines (renderFromCues (Some [hello, world]) rendered_state) =
     lines (renderFromCues (Some [hello, world]) sample_state)"
    by blast
  ultimately show ?thesis using f by (simp add: world_def)
qed

subsection \<open>Activating a line\<close>










subsection \<open>The jump buttons\<close>






subsection \<open>Marking a line\<close>

lemma setActiveCue_lines:
  "lines (setActiveCue v c s) =
     (case c of
        None \<Rightarrow> lines s
      | Some k \<Rightarrow>
          (case cueToLine s k of
             None \<Rightarrow> map (\<lambda>l. l\<lparr>active := False\<rparr>) (lines s)
           | Some i \<Rightarrow> (map (\<lambda>l. l\<lparr>active := False\<rparr>) (lines s))
                        [i := (map (\<lambda>l. l\<lparr>active := False\<rparr>) (lines s) ! i)\<lparr>active := True\<rparr>]))"
  by (simp add: setActiveCue_def clearActive_def Let_def scroll_into_view_frame
      split: option.splits)

subsection \<open>Scrolling\<close>

lemma setActiveCue_scrollTop:
  "scrollTop (setActiveCue v c s) =
     (case c of
        None \<Rightarrow> scrollTop s
      | Some k \<Rightarrow>
          (case cueToLine s k of
             None \<Rightarrow> scrollTop s
           | Some i \<Rightarrow> if doScroll v then scrollTop (scroll_into_view v i s) else scrollTop s))"
  by (simp add: setActiveCue_def clearActive_def Let_def scroll_into_view_def set_scrollTop_def
      split: option.splits)

lemma setActiveCue_no_scroll: "\<not> doScroll v \<Longrightarrow> scrollTop (setActiveCue v c s) = scrollTop s"
  by (simp add: setActiveCue_scrollTop split: option.splits)

lemma marked_line:
  assumes "cueToLine s k = Some i" and "i < length (lines s)"
  shows "map active (lines (setActiveCue v (Some k) s)) =
         (replicate (length (lines s)) False)[i := True]"
proof -
  have "map active (map (\<lambda>l. l\<lparr>active := False\<rparr>) (lines s)) = replicate (length (lines s)) False"
    by (simp add: comp_def map_replicate_const)
  then show ?thesis
    using assms by (simp add: setActiveCue_lines map_update)
qed

text \<open>The offsets the sample pages lead to.\<close>

lemma sample_edges:
  "dadd 100 paddingTop = 120" "dsub 300 paddingBottom = 270"
  "dsub 90 120 = - 30" "dsub 300 270 = 30"
  "dadd 50 (- 30) = 20" "dadd 50 30 = 80" "dadd 0 (- 30) = - 30"
  by code_simp+

lemma fraction_edges:
  "(0::rat) < dadd (double_of (1 / 10)) paddingTop"
  "max 0 (min 1000 (dadd 50 (dsub 0 (dadd (double_of (1 / 10)) paddingTop)))) =
     4208050901824307 / 140737488355328"
  "50 + (0 - (double_of (1 / 10) + 20)) = 1077261030867022643 / 36028797018963968"
  by code_simp+

text \<open>Rounding decides the branch: with the container's top at the double \<open>0.7\<close>, a line
  whose top is the double \<open>20.7\<close> is not above the padded top, although \<open>20.7\<close> is
  less than the exact sum.\<close>

lemma padded_top_rounds:
  "\<not> double_of (207 / 10) < dadd (double_of (7 / 10)) paddingTop"
  "double_of (207 / 10) < double_of (7 / 10) + 20"
  by code_simp+

lemma scroll_sample:
  "scrollTop (scroll_into_view sample_view 0 rendered_state) = 20"
  "scrollTop (scroll_into_view sample_view 1 rendered_state) = 80"
  "scrollTop (scroll_into_view centred_view 1 rendered_state) = 50"
  "scrollTop (scroll_into_view sample_view 0 top_state) = 0"
  "scrollTop (scroll_into_view fraction_view 0 rendered_state) = 4208050901824307 / 140737488355328"
  by (simp_all add: scroll_into_view_def set_scrollTop_def sample_view_def centred_view_def
      fraction_view_def top_state_def Let_def rendered_scrollTop sample_edges fraction_edges)

text \<open>
  Claim C8. A cue change leaves the scroll offset as it is unless the wrapper is there and
  open and the checkbox is there and checked; a changed offset implies both. The marking
  of the lines does not depend on these two: whatever the page, the line of the first
  active cue is the one line marked.
\<close>

theorem scroll_only_when_enabled:
  "(\<not> (details_open v = Some True \<and> autoscroll_checked v = Some True) \<longrightarrow>
      scrollTop (cuechange v ac s) = scrollTop s) \<and>
   (scrollTop (cuechange v ac s) \<noteq> scrollTop s \<longrightarrow>
      details_open v = Some True \<and> autoscroll_checked v = Some True) \<and>
   lines (cuechange v ac s) = lines (cuechange v' ac s) \<and>
   (first_active ac = Some c \<and> cueToLine s c = Some i \<and> i < length (lines s) \<longrightarrow>
      map active (lines (cuechange v ac s)) = (replicate (length (lines s)) False)[i := True])"
proof -
  have a: "scrollTop (cuechange v ac s) = scrollTop s"
    if "\<not> (details_open v = Some True \<and> autoscroll_checked v = Some True)"
    using that by (simp add: cuechange_def setActiveCue_no_scroll doScroll_def)
  have b: "lines (cuechange v ac s) = lines (cuechange v' ac s)"
    by (simp add: cuechange_def setActiveCue_lines)
  have c: "map active (lines (cuechange v ac s)) = (replicate (length (lines s)) False)[i := True]"
    if "first_active ac = Some c" "cueToLine s c = Some i" "i < length (lines s)"
    using marked_line[OF that(2,3)] by (simp add: cuechange_def that(1))
  from a b c show ?thesis by blast
qed

theorem scroll_only_when_enabled_witness:
  "\<not> (details_open quiet_view = Some True \<and> autoscroll_checked quiet_view = Some True) \<and>
   first_active (Some [world, hello]) = Some world \<and>
   cueToLine rendered_state world = Some 1 \<and> (1::nat) < length (lines rendered_state) \<and>
   scrollTop (cuechange quiet_view (Some [world, hello]) rendered_state) = 50 \<and>
   scrollTop (cuechange sample_view (Some [world, hello]) rendered_state) = 80 \<and>
   details_open sample_view = Some True \<and> autoscroll_checked sample_view = Some True \<and>
   map active (lines (cuechange quiet_view (Some [world, hello]) rendered_state)) = [False, True]"
proof -
  have h: "\<not> (details_open quiet_view = Some True \<and> autoscroll_checked quiet_view = Some True)"
    "first_active (Some [world, hello]) = Some world"
    "cueToLine rendered_state world = Some 1" "(1::nat) < length (lines rendered_state)"
    by (simp_all add: quiet_view_def sample_view_def first_active_def rendered_lookup rendered_lines)
  have r: "(replicate (length (lines rendered_state)) False)[1 := True] = [False, True]"
    by (simp add: rendered_lines)
  have d: "doScroll sample_view" by (simp add: doScroll_def sample_view_def)
  have m: "scrollTop (cuechange sample_view (Some [world, hello]) rendered_state) = 80"
    by (simp add: cuechange_def first_active_def setActiveCue_scrollTop rendered_lookup d
        scroll_sample del: One_nat_def)
  then have n: "scrollTop (cuechange sample_view (Some [world, hello]) rendered_state) \<noteq>
      scrollTop rendered_state"
    by (simp add: rendered_scrollTop)
  note t = scroll_only_when_enabled [of quiet_view "Some [world, hello]" rendered_state
      sample_view world 1]
  note u = scroll_only_when_enabled [of sample_view "Some [world, hello]" rendered_state
      sample_view world 1]
  from t h have
    "scrollTop (cuechange quiet_view (Some [world, hello]) rendered_state) = scrollTop rendered_state"
    "map active (lines (cuechange quiet_view (Some [world, hello]) rendered_state)) =
       (replicate (length (lines rendered_state)) False)[1 := True]"
    by blast+
  moreover from u n have
    "details_open sample_view = Some True \<and> autoscroll_checked sample_view = Some True"
    by blast
  ultimately show ?thesis using h r m by (simp add: rendered_scrollTop)
qed

text \<open>
  Claim C9, as the code has it. When auto-scroll applies (wrapper open, checkbox checked,
  and the first active cue has a line), with paddings 20 and 30 and every sum and
  difference rounded to the nearest double: if the line's top edge is above the
  container's top plus 20, the scroll offset is set to the old offset plus their
  difference, which is negative; else if the line's bottom edge is below the container's
  bottom minus 30, it is set to the old offset plus their difference, which is positive;
  in both cases the container keeps the offset set within its scroll range, from 0 to its
  largest offset. Otherwise the offset is as it was.
\<close>

theorem scroll_by_deficit:
  "details_open v = Some True \<and> autoscroll_checked v = Some True \<and>
   first_active ac = Some c \<and> cueToLine s c = Some i \<longrightarrow>
     paddingTop = 20 \<and> paddingBottom = 30 \<and>
     (rect_top (lineRect v i) < dadd (rect_top (parentRect v)) 20 \<longrightarrow>
        scrollTop (cuechange v ac s) =
          max 0 (min (scrollMax v)
            (dadd (scrollTop s) (dsub (rect_top (lineRect v i)) (dadd (rect_top (parentRect v)) 20)))) \<and>
        (is_double (rect_top (lineRect v i)) \<longrightarrow>
           dsub (rect_top (lineRect v i)) (dadd (rect_top (parentRect v)) 20) < 0)) \<and>
     (\<not> rect_top (lineRect v i) < dadd (rect_top (parentRect v)) 20 \<and>
      rect_bottom (lineRect v i) > dsub (rect_bottom (parentRect v)) 30 \<longrightarrow>
        scrollTop (cuechange v ac s) =
          max 0 (min (scrollMax v)
            (dadd (scrollTop s)
               (dsub (rect_bottom (lineRect v i)) (dsub (rect_bottom (parentRect v)) 30)))) \<and>
        (is_double (rect_bottom (lineRect v i)) \<longrightarrow>
           0 < dsub (rect_bottom (lineRect v i)) (dsub (rect_bottom (parentRect v)) 30))) \<and>
     (\<not> rect_top (lineRect v i) < dadd (rect_top (parentRect v)) 20 \<and>
      \<not> rect_bottom (lineRect v i) > dsub (rect_bottom (parentRect v)) 30 \<longrightarrow>
        scrollTop (cuechange v ac s) = scrollTop s)"
proof (intro impI, elim conjE)
  assume h: "details_open v = Some True" "autoscroll_checked v = Some True"
    "first_active ac = Some c" "cueToLine s c = Some i"
  have st: "scrollTop (cuechange v ac s) = scrollTop (scroll_into_view v i s)"
    using h by (simp add: cuechange_def setActiveCue_scrollTop doScroll_def)
  have neg: "dsub (rect_top (lineRect v i)) (dadd (rect_top (parentRect v)) 20) < 0"
    if "rect_top (lineRect v i) < dadd (rect_top (parentRect v)) 20"
      "is_double (rect_top (lineRect v i))"
    unfolding dsub_def
    using that(2) is_double_double_of that(1) unfolding dadd_def by (rule double_of_diff_neg)
  have pos: "0 < dsub (rect_bottom (lineRect v i)) (dsub (rect_bottom (parentRect v)) 30)"
    if "rect_bottom (lineRect v i) > dsub (rect_bottom (parentRect v)) 30"
      "is_double (rect_bottom (lineRect v i))"
    unfolding dsub_def[of "rect_bottom (lineRect v i)"]
    using that(2) is_double_double_of that(1) unfolding dsub_def[of "rect_bottom (parentRect v)"]
    by (rule double_of_diff_pos)
  show "paddingTop = 20 \<and> paddingBottom = 30 \<and>
     (rect_top (lineRect v i) < dadd (rect_top (parentRect v)) 20 \<longrightarrow>
        scrollTop (cuechange v ac s) =
          max 0 (min (scrollMax v)
            (dadd (scrollTop s) (dsub (rect_top (lineRect v i)) (dadd (rect_top (parentRect v)) 20)))) \<and>
        (is_double (rect_top (lineRect v i)) \<longrightarrow>
           dsub (rect_top (lineRect v i)) (dadd (rect_top (parentRect v)) 20) < 0)) \<and>
     (\<not> rect_top (lineRect v i) < dadd (rect_top (parentRect v)) 20 \<and>
      rect_bottom (lineRect v i) > dsub (rect_bottom (parentRect v)) 30 \<longrightarrow>
        scrollTop (cuechange v ac s) =
          max 0 (min (scrollMax v)
            (dadd (scrollTop s)
               (dsub (rect_bottom (lineRect v i)) (dsub (rect_bottom (parentRect v)) 30)))) \<and>
        (is_double (rect_bottom (lineRect v i)) \<longrightarrow>
           0 < dsub (rect_bottom (lineRect v i)) (dsub (rect_bottom (parentRect v)) 30))) \<and>
     (\<not> rect_top (lineRect v i) < dadd (rect_top (parentRect v)) 20 \<and>
      \<not> rect_bottom (lineRect v i) > dsub (rect_bottom (parentRect v)) 30 \<longrightarrow>
        scrollTop (cuechange v ac s) = scrollTop s)"
    using neg pos
    by (simp add: st scroll_into_view_def set_scrollTop_def paddingTop_def paddingBottom_def Let_def)
qed

theorem scroll_by_deficit_witness:
  "details_open sample_view = Some True \<and> autoscroll_checked sample_view = Some True \<and>
   first_active (Some [hello]) = Some hello \<and> cueToLine rendered_state hello = Some 0 \<and>
   rect_top (lineRect sample_view 0) < dadd (rect_top (parentRect sample_view)) 20 \<and>
   is_double (rect_top (lineRect sample_view 0)) \<and>
   scrollTop (cuechange sample_view (Some [hello]) rendered_state) = 20 \<and>
   dsub (rect_top (lineRect sample_view 0)) (dadd (rect_top (parentRect sample_view)) 20) < 0 \<and>
   \<not> rect_top (lineRect sample_view 1) < dadd (rect_top (parentRect sample_view)) 20 \<and>
   rect_bottom (lineRect sample_view 1) > dsub (rect_bottom (parentRect sample_view)) 30 \<and>
   is_double (rect_bottom (lineRect sample_view 1)) \<and>
   scrollTop (cuechange sample_view (Some [world]) rendered_state) = 80 \<and>
   0 < dsub (rect_bottom (lineRect sample_view 1)) (dsub (rect_bottom (parentRect sample_view)) 30) \<and>
   \<not> rect_top (lineRect centred_view 1) < dadd (rect_top (parentRect centred_view)) 20 \<and>
   \<not> rect_bottom (lineRect centred_view 1) > dsub (rect_bottom (parentRect centred_view)) 30 \<and>
   scrollTop (cuechange centred_view (Some [world]) rendered_state) = 50"
proof -
  have e: "dadd 100 20 = 120" "dsub 300 30 = 270" "is_double 90" "is_double 300"
    by code_simp+
  have v: "details_open sample_view = Some True" "autoscroll_checked sample_view = Some True"
    "details_open centred_view = Some True" "autoscroll_checked centred_view = Some True"
    by (simp_all add: sample_view_def centred_view_def)
  have f: "first_active (Some [hello]) = Some hello" "first_active (Some [world]) = Some world"
    by (simp_all add: first_active_def)
  have g0: "rect_top (lineRect sample_view 0) < dadd (rect_top (parentRect sample_view)) 20"
    "is_double (rect_top (lineRect sample_view 0))"
    by (simp_all add: sample_view_def e)
  have g1: "\<not> rect_top (lineRect sample_view 1) < dadd (rect_top (parentRect sample_view)) 20"
    "rect_bottom (lineRect sample_view 1) > dsub (rect_bottom (parentRect sample_view)) 30"
    "is_double (rect_bottom (lineRect sample_view 1))"
    by (simp_all add: sample_view_def e)
  have g2: "\<not> rect_top (lineRect centred_view 1) < dadd (rect_top (parentRect centred_view)) 20"
    "\<not> rect_bottom (lineRect centred_view 1) > dsub (rect_bottom (parentRect centred_view)) 30"
    by (simp_all add: sample_view_def centred_view_def e)
  have x: "max 0 (min (scrollMax sample_view) (dadd (scrollTop rendered_state)
        (dsub (rect_top (lineRect sample_view 0)) (dadd (rect_top (parentRect sample_view)) 20)))) = 20"
    "max 0 (min (scrollMax sample_view) (dadd (scrollTop rendered_state)
        (dsub (rect_bottom (lineRect sample_view 1))
           (dsub (rect_bottom (parentRect sample_view)) 30)))) = 80"
    by (simp_all add: sample_view_def rendered_scrollTop e sample_edges)
  from scroll_by_deficit [of sample_view "Some [hello]" hello rendered_state 0]
    v f rendered_lookup g0
  have a: "scrollTop (cuechange sample_view (Some [hello]) rendered_state) =
      max 0 (min (scrollMax sample_view) (dadd (scrollTop rendered_state)
        (dsub (rect_top (lineRect sample_view 0)) (dadd (rect_top (parentRect sample_view)) 20))))"
    "dsub (rect_top (lineRect sample_view 0)) (dadd (rect_top (parentRect sample_view)) 20) < 0"
    by blast+
  from scroll_by_deficit [of sample_view "Some [world]" world rendered_state 1]
    v f rendered_lookup g1
  have b: "scrollTop (cuechange sample_view (Some [world]) rendered_state) =
      max 0 (min (scrollMax sample_view) (dadd (scrollTop rendered_state)
        (dsub (rect_bottom (lineRect sample_view 1))
           (dsub (rect_bottom (parentRect sample_view)) 30))))"
    "0 < dsub (rect_bottom (lineRect sample_view 1)) (dsub (rect_bottom (parentRect sample_view)) 30)"
    by blast+
  from scroll_by_deficit [of centred_view "Some [world]" world rendered_state 1]
    v f rendered_lookup g2
  have c: "scrollTop (cuechange centred_view (Some [world]) rendered_state) =
      scrollTop rendered_state"
    by blast
  have a': "scrollTop (cuechange sample_view (Some [hello]) rendered_state) = 20"
    by (simp only: a(1) x(1))
  have b': "scrollTop (cuechange sample_view (Some [world]) rendered_state) = 80"
    by (simp only: b(1) x(2))
  have c': "scrollTop (cuechange centred_view (Some [world]) rendered_state) = 50"
    by (simp only: c rendered_scrollTop)
  from v f rendered_lookup g0 g1 g2 a(2) b(2) a' b' c' show ?thesis by blast
qed

text \<open>The claim as written fails. At offset 0 a line above the padded top leaves the
  offset at 0, although the deficit is \<open>-30\<close>. And with the container's top at the double
  \<open>0.1\<close> and the line's top at 0, the offset set from 50 is not 50 plus the deficit.\<close>

theorem scroll_by_deficit_counterexample:
  "scrollTop top_state = 0 \<and>
   rect_top (lineRect sample_view 0) < rect_top (parentRect sample_view) + 20 \<and>
   rect_top (lineRect sample_view 0) - (rect_top (parentRect sample_view) + 20) = - 30 \<and>
   scrollTop (cuechange sample_view (Some [hello]) top_state) = 0 \<and>
   scrollTop rendered_state = 50 \<and>
   rect_top (lineRect fraction_view 0) < rect_top (parentRect fraction_view) + 20 \<and>
   scrollTop (cuechange fraction_view (Some [hello]) rendered_state) =
     4208050901824307 / 140737488355328 \<and>
   scrollTop rendered_state +
     (rect_top (lineRect fraction_view 0) - (rect_top (parentRect fraction_view) + 20)) =
     1077261030867022643 / 36028797018963968"
proof -
  have d: "doScroll sample_view" "doScroll fraction_view"
    by (simp_all add: doScroll_def sample_view_def fraction_view_def)
  have l: "cueToLine top_state hello = Some 0"
    by (simp add: top_state_def rendered_lookup)
  have a: "scrollTop (cuechange sample_view (Some [hello]) top_state) = 0"
    by (simp add: cuechange_def first_active_def setActiveCue_scrollTop l d scroll_sample)
  have b: "scrollTop (cuechange fraction_view (Some [hello]) rendered_state) =
     4208050901824307 / 140737488355328"
    by (simp add: cuechange_def first_active_def setActiveCue_scrollTop rendered_lookup d
        scroll_sample)
  have p: "(0::rat) < double_of (1 / 10) + 20" by code_simp
  have c: "rect_top (lineRect fraction_view 0) < rect_top (parentRect fraction_view) + 20"
    using p by (simp add: fraction_view_def sample_view_def)
  have e: "scrollTop rendered_state +
     (rect_top (lineRect fraction_view 0) - (rect_top (parentRect fraction_view) + 20)) =
     1077261030867022643 / 36028797018963968"
    using fraction_edges(3) by (simp add: fraction_view_def sample_view_def rendered_scrollTop)
  have t: "scrollTop top_state = 0" by (simp add: top_state_def)
  have s: "rect_top (lineRect sample_view 0) < rect_top (parentRect sample_view) + 20"
    "rect_top (lineRect sample_view 0) - (rect_top (parentRect sample_view) + 20) = - 30"
    by (simp_all add: sample_view_def)
  from t s a rendered_scrollTop c b e show ?thesis by blast
qed

subsection \<open>The lookup points into the lines\<close>

lemma render_cue_lookup:
  assumes "\<forall>k i. cueToLine s k = Some i \<longrightarrow> i < length (lines s) \<and> line_cue (lines s ! i) = k"
  shows "\<forall>k i. cueToLine (render_cue s ic) k = Some i \<longrightarrow>
           i < length (lines (render_cue s ic)) \<and> line_cue (lines (render_cue s ic) ! i) = k"
proof (intro allI impI)
  fix k i
  assume h: "cueToLine (render_cue s ic) k = Some i"
  show "i < length (lines (render_cue s ic)) \<and> line_cue (lines (render_cue s ic) ! i) = k"
  proof (cases "k = snd ic")
    case True
    with h have "i = length (lines s)" by (simp add: render_cue_def Let_def)
    then show ?thesis by (simp add: render_cue_def Let_def make_line_def True)
  next
    case False
    with h have "cueToLine s k = Some i" by (simp add: render_cue_def Let_def)
    with assms have "i < length (lines s)" "line_cue (lines s ! i) = k" by blast+
    then show ?thesis by (simp add: render_cue_def Let_def nth_append)
  qed
qed

lemma foldl_render_cue_lookup:
  "\<forall>k i. cueToLine s k = Some i \<longrightarrow> i < length (lines s) \<and> line_cue (lines s ! i) = k \<Longrightarrow>
   \<forall>k i. cueToLine (foldl render_cue s ics) k = Some i \<longrightarrow>
     i < length (lines (foldl render_cue s ics)) \<and> line_cue (lines (foldl render_cue s ics) ! i) = k"
proof (induction ics arbitrary: s)
  case Nil
  then show ?case by simp
next
  case (Cons ic ics)
  from Cons.prems have "\<forall>k i. cueToLine (render_cue s ic) k = Some i \<longrightarrow>
           i < length (lines (render_cue s ic)) \<and> line_cue (lines (render_cue s ic) ! i) = k"
    by (rule render_cue_lookup)
  from Cons.IH[OF this] show ?case by simp
qed

lemma renderFromCues_lookup:
  "\<forall>k i. cueToLine (renderFromCues tc s) k = Some i \<longrightarrow>
     i < length (lines (renderFromCues tc s)) \<and> line_cue (lines (renderFromCues tc s) ! i) = k"
proof (cases "cues_of tc = []")
  case True
  then show ?thesis by (simp add: renderFromCues_def Let_def)
next
  case False
  let ?r = "s\<lparr>transcript := [], lines := [], cueToLine := Map.empty, renders := Suc (renders s)\<rparr>"
  have "\<forall>k i. cueToLine ?r k = Some i \<longrightarrow> i < length (lines ?r) \<and> line_cue (lines ?r ! i) = k"
    by simp
  from foldl_render_cue_lookup[OF this, of "enumerate 0 (cues_of tc)"] False
  show ?thesis by (simp add: renderFromCues_def Let_def)
qed

lemma setActiveCue_lookup:
  assumes "\<forall>k i. cueToLine s k = Some i \<longrightarrow> i < length (lines s) \<and> line_cue (lines s ! i) = k"
  shows "\<forall>k i. cueToLine (setActiveCue v c s) k = Some i \<longrightarrow>
           i < length (lines (setActiveCue v c s)) \<and> line_cue (lines (setActiveCue v c s) ! i) = k"
  using assms
  by (auto simp: setActiveCue_frame setActiveCue_lines nth_list_update split: option.splits)

lemma step_lookup:
  assumes "\<forall>k i. cueToLine s k = Some i \<longrightarrow> i < length (lines s) \<and> line_cue (lines s ! i) = k"
  shows "\<forall>k i. cueToLine (step s e) k = Some i \<longrightarrow>
           i < length (lines (step s e)) \<and> line_cue (lines (step s e) ! i) = k"
proof (cases e)
  case (TimerTick tc)
  from assms renderFromCues_lookup show ?thesis
    by (simp add: TimerTick tick_def Let_def)
next
  case (CueChange ac v)
  from setActiveCue_lookup[OF assms] show ?thesis by (simp add: CueChange cuechange_def)
next
  case (LineClick i p)
  from assms show ?thesis by (simp add: LineClick jump_frame)
next
  case (LineKeyDown i k p)
  from assms show ?thesis by (simp add: LineKeyDown line_keydown_frame)
next
  case (ButtonClick a)
  from assms show ?thesis by (simp add: ButtonClick button_click_frame)
qed

text \<open>On a running card every entry of the lookup is the index of a line in \<open>lines\<close>, and
  that line is the one rendered for the cue.\<close>

lemma run_lookup:
  "\<forall>k i. cueToLine s k = Some i \<longrightarrow> i < length (lines s) \<and> line_cue (lines s ! i) = k \<Longrightarrow>
   \<forall>k i. cueToLine (run s evs) k = Some i \<longrightarrow>
     i < length (lines (run s evs)) \<and> line_cue (lines (run s evs) ! i) = k"
proof (induction evs arbitrary: s)
  case Nil
  then show ?case by (simp add: run_Nil)
next
  case (Cons e evs)
  from Cons.prems have "\<forall>k i. cueToLine (step s e) k = Some i \<longrightarrow>
           i < length (lines (step s e)) \<and> line_cue (lines (step s e) ! i) = k"
    by (rule step_lookup)
  from Cons.IH[OF this] show ?case by (simp add: run_Cons)
qed

lemma running_lookup:
  assumes "setupCard c = Running s0" and "cueToLine (run s0 evs) k = Some i"
  shows "i < length (lines (run s0 evs))" and "line_cue (lines (run s0 evs) ! i) = k"
proof -
  have "cueToLine s0 = Map.empty"
    using assms(1) by (auto simp: setupCard_def split: option.splits if_splits)
  then have "\<forall>k i. cueToLine s0 k = Some i \<longrightarrow> i < length (lines s0) \<and> line_cue (lines s0 ! i) = k"
    by simp
  from run_lookup[OF this, of evs] assms(2)
  show "i < length (lines (run s0 evs))" and "line_cue (lines (run s0 evs) ! i) = k"
    by blast+
qed

end
